theory Spec2Isabelle
  imports Complex_Main "HOL-Library.Multiset"
begin

section \<open>Data model of the solver state (\<^verbatim>\<open>Internal\<close>)\<close>

text \<open>
  The development embeds \<^verbatim>\<open>src/src/analyze.cpp\<close>.  A literal is a non-zero \<^verbatim>\<open>int\<close>,
  a variable index is \<^verbatim>\<open>vidx (lit) = abs (lit)\<close>.  The tables \<^verbatim>\<open>vtab\<close>, \<^verbatim>\<open>ftab\<close>,
  \<^verbatim>\<open>btab\<close>, \<^verbatim>\<open>ltab\<close>, \<^verbatim>\<open>vals\<close> and \<^verbatim>\<open>control\<close> are arrays indexed by variable
  index or by decision level; they are total functions here, since the source never checks
  an index.  A \<^verbatim>\<open>Clause *\<close> is an address into a store of clause objects, the null
  pointer is \<open>None\<close>.  Counters of type \<^verbatim>\<open>long\<close> are unbounded integers: none of them can
  reach \<open>2^63\<close> in a run.  A failing \<^verbatim>\<open>assert\<close> and a read before the beginning of the
  trail are error values.
\<close>

datatype error = AssertionFailed | TrailUnderflow

type_synonym cref = nat

text \<open>Modelled from the spec: the declaration of \<^verbatim>\<open>Flags\<close> (\<^verbatim>\<open>flags.hpp\<close>) is not part of
  the sources; section 3 of the specification gives the flags \<open>seen\<close>, \<open>poison\<close>,
  \<open>removable\<close>, \<open>keep\<close> and a status among unassigned, active and fixed.\<close>

datatype status = UNASSIGNED | ACTIVE | FIXED

record Flags =
  seen :: bool
  keep :: bool
  poison :: bool
  removable :: bool
  status :: status

text \<open>Modelled from the spec: \<^verbatim>\<open>Var\<close> (\<^verbatim>\<open>var.hpp\<close>) is not part of the sources.  A
  variable has its decision level (0 is the top level), its position in the trail and the
  clause that forced its assignment (none for a decision).\<close>

record Var =
  v_level :: nat
  v_trail :: nat
  v_reason :: "cref option"

text \<open>Modelled from the spec: \<^verbatim>\<open>Level\<close> (\<^verbatim>\<open>level.hpp\<close>) is not part of the sources.  A
  level record counts the analyzed literals of the level and keeps the lowest trail position
  among them.\<close>

record Level =
  l_seen :: int
  l_trail :: int

text \<open>Modelled from the spec: \<^verbatim>\<open>Link\<close> (\<^verbatim>\<open>queue.hpp\<close>) is not part of the sources.  The
  links of the doubly linked VMTF queue are variable indices, 0 for none.\<close>

record Link =
  prev :: nat
  "next" :: nat

text \<open>Modelled from the spec: \<^verbatim>\<open>Queue\<close> (\<^verbatim>\<open>queue.hpp\<close>) is not part of the sources.  The
  queue has its two anchors and the cursor of the first unassigned variable.\<close>

record Queue =
  q_first :: nat
  q_last :: nat
  q_unassigned :: nat

text \<open>Modelled from the spec: \<^verbatim>\<open>Clause\<close> (\<^verbatim>\<open>clause.hpp\<close>) is not part of the sources.  A
  clause has its literals, the redundant flag, the flag of hyper-binary resolution, the
  used flag, the glue, and an analyzed timestamp when it has a slot for one
  (\<^verbatim>\<open>have_analyzed\<close>).\<close>

record Clause =
  literals :: "int list"
  redundant :: bool
  hbr :: bool
  used :: bool
  have_analyzed :: bool
  c_analyzed :: int
  glue :: int

text \<open>Modelled from the spec: \<^verbatim>\<open>Stats\<close> (\<^verbatim>\<open>stats.hpp\<close>) is not part of the sources.  These
  are the counters that \<^verbatim>\<open>analyze.cpp\<close> reads and writes.\<close>

record Stats =
  stats_bumped :: int
  stats_bumplast :: int
  stats_trailbumped :: int
  stats_analyzed :: int
  stats_learned :: int
  stats_units :: int
  stats_binaries :: int
  stats_fixed :: int
  stats_propagations :: int
  stats_decisions :: int

text \<open>Modelled from the spec: the options (\<^verbatim>\<open>options.hpp\<close>) are not part of the sources.
  These are the four that \<^verbatim>\<open>analyze.cpp\<close> reads; the two limits are rationals instead of
  \<^verbatim>\<open>double\<close>.\<close>

record Opts =
  opts_trailbump :: bool
  opts_trailbumprops :: rat
  opts_trailbumplast :: rat
  opts_minimize :: bool

text \<open>Modelled from the spec: \<^verbatim>\<open>Proof\<close> (\<^verbatim>\<open>proof.hpp\<close>) is not part of the sources.  The
  proof logger is offered the empty clause and the learned units; it is the list of what it
  was offered, and \<open>None\<close> when no logger is attached.\<close>

datatype proof_event = TraceEmptyClause | TraceUnitClause int

text \<open>Modelled from the spec: \<^verbatim>\<open>Internal\<close> (\<^verbatim>\<open>internal.hpp\<close>) is not part of the sources.
  The fields are those that \<^verbatim>\<open>analyze.cpp\<close> uses.  The macro \<^verbatim>\<open>UPDATE_AVERAGE\<close> and the
  type of the moving averages are missing too: a moving average is the list of the samples
  it was updated with.  \<open>num_clauses\<close> is the address of the next clause object.\<close>

record Internal =
  level :: nat
  unsat :: bool
  iterating :: bool
  proof_log :: "proof_event list option"
  conflict :: "cref option"
  trail :: "int list"
  vals :: "nat \<Rightarrow> int"
  vtab :: "nat \<Rightarrow> Var"
  ftab :: "nat \<Rightarrow> Flags"
  btab :: "nat \<Rightarrow> int"
  ltab :: "nat \<Rightarrow> Link"
  queue :: Queue
  control :: "nat \<Rightarrow> Level"
  clauses :: "cref \<Rightarrow> Clause"
  num_clauses :: nat
  clause :: "int list"
  levels :: "nat list"
  analyzed :: "int list"
  resolved :: "cref list"
  stats :: Stats
  opts :: Opts
  fast_glue_avg :: "int list"
  slow_glue_avg :: "int list"
  size_avg :: "int list"
  jump_avg :: "int list"

section \<open>Accessors\<close>

text \<open>Modelled from the spec: \<^verbatim>\<open>vidx\<close> (\<^verbatim>\<open>internal.hpp\<close>) is not part of the sources; a
  literal is a signed reference to its variable.\<close>

definition vidx :: "int \<Rightarrow> nat" where
  "vidx lit = nat \<bar>lit\<bar>"

text \<open>Modelled from the spec: \<^verbatim>\<open>var\<close> (\<^verbatim>\<open>internal.hpp\<close>) is not part of the sources; it is
  the entry of the variable of a literal in \<^verbatim>\<open>vtab\<close>.\<close>

definition var :: "Internal \<Rightarrow> int \<Rightarrow> Var" where
  "var s lit = vtab s (vidx lit)"

text \<open>Modelled from the spec: \<^verbatim>\<open>flags\<close> (\<^verbatim>\<open>internal.hpp\<close>) is not part of the sources; it
  is the entry of the variable of a literal in \<^verbatim>\<open>ftab\<close>.\<close>

definition flags :: "Internal \<Rightarrow> int \<Rightarrow> Flags" where
  "flags s lit = ftab s (vidx lit)"

text \<open>Modelled from the spec: \<^verbatim>\<open>bumped\<close> (\<^verbatim>\<open>internal.hpp\<close>) is not part of the sources; it
  is the bump stamp of the variable of a literal, in \<^verbatim>\<open>btab\<close>.\<close>

definition bumped :: "Internal \<Rightarrow> int \<Rightarrow> int" where
  "bumped s lit = btab s (vidx lit)"

text \<open>Modelled from the spec: \<^verbatim>\<open>val\<close> is declared in \<^verbatim>\<open>internal.hpp\<close>, which is not part of
  the sources.  \<^verbatim>\<open>vals[idx]\<close> is the value of the variable (0 unassigned, positive true,
  negative false) and the sign of a literal encodes its polarity.\<close>

definition val :: "Internal \<Rightarrow> int \<Rightarrow> int" where
  "val s lit = (if lit < 0 then - vals s (vidx lit) else vals s (vidx lit))"

text \<open>Modelled from the spec: \<^verbatim>\<open>Flags::active\<close> is not part of the sources; it tests the
  status of the variable.\<close>

definition active :: "Flags \<Rightarrow> bool" where
  "active f = (status f = ACTIVE)"

section \<open>Learning the empty clause and a unit\<close>

text \<open>Modelled from the spec: \<^verbatim>\<open>Proof::trace_empty_clause\<close> is not part of the sources; the
  logger records the empty clause.\<close>

definition trace_empty_clause :: "proof_event list \<Rightarrow> proof_event list" where
  "trace_empty_clause p = p @ [TraceEmptyClause]"

text \<open>Modelled from the spec: \<^verbatim>\<open>Proof::trace_unit_clause\<close> is not part of the sources; the
  logger records the unit.\<close>

definition trace_unit_clause :: "int \<Rightarrow> proof_event list \<Rightarrow> proof_event list" where
  "trace_unit_clause lit p = p @ [TraceUnitClause lit]"

definition learn_empty_clause :: "Internal \<Rightarrow> error + Internal" where
  "learn_empty_clause s =
     (if unsat s then Inl AssertionFailed
      else Inr (s\<lparr>proof_log := map_option trace_empty_clause (proof_log s), unsat := True\<rparr>))"

definition learn_unit_clause :: "int \<Rightarrow> Internal \<Rightarrow> error + Internal" where
  "learn_unit_clause lit s =
     (let s1 = s\<lparr>proof_log := map_option (trace_unit_clause lit) (proof_log s)\<rparr> in
      if \<not> active (flags s1 lit) then Inl AssertionFailed
      else Inr (s1\<lparr>ftab := (ftab s1)(vidx lit := (flags s1 lit)\<lparr>status := FIXED\<rparr>),
                   stats := (stats s1)\<lparr>stats_fixed := stats_fixed (stats s1) + 1\<rparr>\<rparr>))"

section \<open>The VMTF queue\<close>

text \<open>Modelled from the spec: \<^verbatim>\<open>Queue::dequeue\<close> (\<^verbatim>\<open>queue.hpp\<close>) is not part of the sources.
  The queue is a doubly linked order over the variables with indices as links (0 for none);
  \<open>dequeue\<close> unlinks a variable from its position.\<close>

definition dequeue :: "nat \<Rightarrow> (nat \<Rightarrow> Link) \<times> Queue \<Rightarrow> (nat \<Rightarrow> Link) \<times> Queue" where
  "dequeue idx lq =
     (case lq of (lt, q) \<Rightarrow>
        let l = lt idx;
            (lt1, q1) = (if prev l \<noteq> 0 then (lt(prev l := (lt (prev l))\<lparr>next := next l\<rparr>), q)
                         else (lt, q\<lparr>q_first := next l\<rparr>))
        in (if next l \<noteq> 0 then (lt1(next l := (lt1 (next l))\<lparr>prev := prev l\<rparr>), q1)
            else (lt1, q1\<lparr>q_last := prev l\<rparr>)))"

text \<open>Modelled from the spec: \<^verbatim>\<open>Queue::enqueue\<close> (\<^verbatim>\<open>queue.hpp\<close>) is not part of the sources;
  it relinks a variable at the front.  The front is the end without a successor, the one
  \<^verbatim>\<open>bump_variable\<close> tests with \<^verbatim>\<open>!l->next\<close>; it is the anchor \<open>q_last\<close>.\<close>

definition enqueue :: "nat \<Rightarrow> (nat \<Rightarrow> Link) \<times> Queue \<Rightarrow> (nat \<Rightarrow> Link) \<times> Queue" where
  "enqueue idx lq =
     (case lq of (lt, q) \<Rightarrow>
        let lt1 = lt(idx := (lt idx)\<lparr>prev := q_last q\<rparr>);
            (lt2, q2) = (if q_last q \<noteq> 0
                         then (lt1(q_last q := (lt1 (q_last q))\<lparr>next := idx\<rparr>), q)
                         else (lt1, q\<lparr>q_first := idx\<rparr>))
        in (lt2(idx := (lt2 idx)\<lparr>next := 0\<rparr>), q2\<lparr>q_last := idx\<rparr>))"

text \<open>Modelled from the spec: \<^verbatim>\<open>update_queue_unassigned\<close> (\<^verbatim>\<open>internal.hpp\<close>) is not part
  of the sources; it moves the queue's "first unassigned" cursor to the variable.\<close>

definition update_queue_unassigned :: "nat \<Rightarrow> Internal \<Rightarrow> Internal" where
  "update_queue_unassigned idx s = s\<lparr>queue := (queue s)\<lparr>q_unassigned := idx\<rparr>\<rparr>"

definition bump_variable :: "int \<Rightarrow> Internal \<Rightarrow> Internal" where
  "bump_variable lit s =
     (let idx = vidx lit in
      if next (ltab s idx) = 0 then s
      else
        let (lt, q) = enqueue idx (dequeue idx (ltab s, queue s));
            s1 = s\<lparr>ltab := lt, queue := q\<rparr>;
            b = stats_bumped (stats s1) + 1;
            s2 = s1\<lparr>stats := (stats s1)\<lparr>stats_bumped := b\<rparr>, btab := (btab s1)(idx := b)\<rparr>;
            s3 = (if v_level (vtab s2 idx) = level s2
                  then s2\<lparr>stats := (stats s2)\<lparr>stats_bumplast := stats_bumplast (stats s2) + 1\<rparr>\<rparr>
                  else s2)
        in (if vals s3 idx = 0 then update_queue_unassigned idx s3 else s3))"

section \<open>Sorting\<close>

text \<open>\<^verbatim>\<open>std::sort\<close> with a comparator.  The standard leaves the order of equivalent
  elements open; the model is the insertion sort that keeps them in their order.\<close>

fun insort_by :: "('a \<Rightarrow> 'a \<Rightarrow> bool) \<Rightarrow> 'a \<Rightarrow> 'a list \<Rightarrow> 'a list" where
  "insort_by cmp x [] = [x]"
| "insort_by cmp x (y # ys) = (if cmp y x then y # insort_by cmp x ys else x # y # ys)"

definition sort_by :: "('a \<Rightarrow> 'a \<Rightarrow> bool) \<Rightarrow> 'a list \<Rightarrow> 'a list" where
  "sort_by cmp xs = foldr (insort_by cmp) xs []"

section \<open>Bumping variables\<close>

definition bumped_earlier :: "Internal \<Rightarrow> int \<Rightarrow> int \<Rightarrow> bool" where
  "bumped_earlier s a b = (bumped s a < bumped s b)"

definition trail_bumped_smaller :: "Internal \<Rightarrow> int \<Rightarrow> int \<Rightarrow> bool" where
  "trail_bumped_smaller s a b =
     (let c = int (v_trail (var s a)); s' = bumped s a + c;
          d = int (v_trail (var s b)); t = bumped s b + d
      in if s' < t then True else if s' > t then False else c < d)"

text \<open>Modelled from the spec: \<^verbatim>\<open>relative\<close> (\<^verbatim>\<open>util.hpp\<close>) is not part of the sources; it is
  the ratio of two counters (0 for a zero denominator), over the rationals instead of
  \<^verbatim>\<open>double\<close>.\<close>

definition relative :: "rat \<Rightarrow> rat \<Rightarrow> rat" where
  "relative a b = (if b \<noteq> 0 then a / b else 0)"

text \<open>Modelled from the spec: \<^verbatim>\<open>percent\<close> (\<^verbatim>\<open>util.hpp\<close>) is not part of the sources; it is
  the ratio in percent.\<close>

definition percent :: "rat \<Rightarrow> rat \<Rightarrow> rat" where
  "percent a b = relative (100 * a) b"

definition use_trail_bump :: "Internal \<Rightarrow> bool" where
  "use_trail_bump s =
     (opts_trailbump (opts s) \<and>
      relative (of_int (stats_propagations (stats s))) (of_int (stats_decisions (stats s)))
        > opts_trailbumprops (opts s) \<and>
      percent (of_int (stats_bumplast (stats s))) (of_int (stats_bumped (stats s)))
        > opts_trailbumplast (opts s))"

definition bump_variables :: "Internal \<Rightarrow> Internal" where
  "bump_variables s =
     (let s1 = (if use_trail_bump s
                then s\<lparr>analyzed := sort_by (trail_bumped_smaller s) (analyzed s),
                       stats := (stats s)\<lparr>stats_trailbumped := stats_trailbumped (stats s) + 1\<rparr>\<rparr>
                else s\<lparr>analyzed := sort_by (bumped_earlier s) (analyzed s)\<rparr>)
      in fold bump_variable (analyzed s1) s1)"

section \<open>Bumping clauses\<close>

text \<open>Modelled from the spec: \<^verbatim>\<open>analyzed_earlier\<close> (\<^verbatim>\<open>clause.hpp\<close>) is not part of the
  sources; it orders clauses by ascending previous timestamp.\<close>

definition analyzed_earlier :: "Internal \<Rightarrow> cref \<Rightarrow> cref \<Rightarrow> bool" where
  "analyzed_earlier s a b = (c_analyzed (clauses s a) < c_analyzed (clauses s b))"

definition bump_clause :: "cref \<Rightarrow> Internal \<Rightarrow> error + Internal" where
  "bump_clause c s =
     (if \<not> have_analyzed (clauses s c) then Inl AssertionFailed
      else
        let a = stats_analyzed (stats s) + 1
        in Inr (s\<lparr>stats := (stats s)\<lparr>stats_analyzed := a\<rparr>,
                  clauses := (clauses s)(c := (clauses s c)\<lparr>c_analyzed := a\<rparr>)\<rparr>))"

fun bump_clauses :: "cref list \<Rightarrow> Internal \<Rightarrow> error + Internal" where
  "bump_clauses [] s = Inr s"
| "bump_clauses (c # cs) s =
     (case bump_clause c s of Inl e \<Rightarrow> Inl e | Inr s1 \<Rightarrow> bump_clauses cs s1)"

definition bump_resolved_clauses :: "Internal \<Rightarrow> error + Internal" where
  "bump_resolved_clauses s =
     (let s1 = s\<lparr>resolved := sort_by (analyzed_earlier s) (resolved s)\<rparr>
      in case bump_clauses (resolved s1) s1 of
           Inl e \<Rightarrow> Inl e
         | Inr s2 \<Rightarrow> Inr (s2\<lparr>resolved := []\<rparr>))"

definition save_as_resolved_clause :: "cref \<Rightarrow> Internal \<Rightarrow> Internal" where
  "save_as_resolved_clause c s =
     (if \<not> redundant (clauses s c) then s
      else
        let s1 = (if hbr (clauses s c)
                  then s\<lparr>clauses := (clauses s)(c := (clauses s c)\<lparr>used := True\<rparr>)\<rparr>
                  else s)
        in (if \<not> have_analyzed (clauses s1 c) then s1
            else s1\<lparr>resolved := resolved s1 @ [c]\<rparr>))"

section \<open>Analyzing literals and reasons\<close>

definition analyze_literal :: "int \<Rightarrow> Internal \<times> int \<Rightarrow> error + Internal \<times> int" where
  "analyze_literal lit so =
     (case so of (s, opn) \<Rightarrow>
        if lit = 0 then Inl AssertionFailed
        else if seen (flags s lit) then Inr (s, opn)
        else
          let v = var s lit in
          if v_level v = 0 then Inr (s, opn)
          else if \<not> val s lit < 0 then Inl AssertionFailed
          else
            let s1 = (if v_level v < level s then s\<lparr>clause := clause s @ [lit]\<rparr> else s);
                l = control s1 (v_level v);
                s2 = (if l_seen l = 0 then s1\<lparr>levels := levels s1 @ [v_level v]\<rparr> else s1);
                l1 = l\<lparr>l_seen := l_seen l + 1\<rparr>;
                l2 = (if int (v_trail v) < l_trail l1 then l1\<lparr>l_trail := int (v_trail v)\<rparr> else l1);
                s3 = s2\<lparr>control := (control s2)(v_level v := l2),
                        ftab := (ftab s2)(vidx lit := (flags s2 lit)\<lparr>seen := True\<rparr>),
                        analyzed := analyzed s2 @ [lit]\<rparr>
            in Inr (s3, if v_level v = level s then opn + 1 else opn))"

fun analyze_literals :: "int \<Rightarrow> int list \<Rightarrow> Internal \<times> int \<Rightarrow> error + Internal \<times> int" where
  "analyze_literals lit [] so = Inr so"
| "analyze_literals lit (other # rest) so =
     (if other \<noteq> lit
      then (case analyze_literal other so of
              Inl e \<Rightarrow> Inl e
            | Inr so1 \<Rightarrow> analyze_literals lit rest so1)
      else analyze_literals lit rest so)"

definition analyze_reason :: "int \<Rightarrow> cref \<Rightarrow> Internal \<times> int \<Rightarrow> error + Internal \<times> int" where
  "analyze_reason lit reason so =
     (case so of (s, opn) \<Rightarrow>
        let s1 = save_as_resolved_clause reason s
        in analyze_literals lit (literals (clauses s1 reason)) (s1, opn))"

section \<open>Cleaning up\<close>

fun clear_seen_flags :: "int list \<Rightarrow> Internal \<Rightarrow> error + Internal" where
  "clear_seen_flags [] s = Inr s"
| "clear_seen_flags (lit # rest) s =
     (let f = flags s lit in
      if \<not> seen f then Inl AssertionFailed
      else if keep f \<or> poison f \<or> removable f then Inl AssertionFailed
      else clear_seen_flags rest (s\<lparr>ftab := (ftab s)(vidx lit := f\<lparr>seen := False\<rparr>)\<rparr>))"

definition clear_seen :: "Internal \<Rightarrow> error + Internal" where
  "clear_seen s =
     (case clear_seen_flags (analyzed s) s of
        Inl e \<Rightarrow> Inl e
      | Inr s1 \<Rightarrow> Inr (s1\<lparr>analyzed := []\<rparr>))"

text \<open>Modelled from the spec: \<^verbatim>\<open>Level::reset\<close> (\<^verbatim>\<open>level.hpp\<close>) is not part of the sources;
  it restores a level record to its empty state: no analyzed literal, and no trail
  position (the largest \<^verbatim>\<open>int\<close>).\<close>

definition level_reset :: Level where
  "level_reset = \<lparr>l_seen = 0, l_trail = 2147483647\<rparr>"

definition clear_levels :: "Internal \<Rightarrow> Internal" where
  "clear_levels s =
     (fold (\<lambda>l t. t\<lparr>control := (control t)(l := level_reset)\<rparr>) (levels s) s)\<lparr>levels := []\<rparr>"

section \<open>Collaborators of the analysis\<close>

text \<open>Modelled from the spec: \<^verbatim>\<open>check_learned_clause\<close> is not part of the sources.  It is
  the well-formedness check of the learned clause: no duplicate and no complementary
  literals, and every literal falsified; a violation is fatal.\<close>

definition check_learned_clause :: "Internal \<Rightarrow> error + Internal" where
  "check_learned_clause s =
     (if list_all (\<lambda>lit. val s lit < 0) (clause s) \<and> distinct (map vidx (clause s))
      then Inr s else Inl AssertionFailed)"

text \<open>Modelled from the spec: \<^verbatim>\<open>trail_larger\<close> is not part of the sources.  It is the
  comparator of the backjump decision: descending assignment level, ties broken by
  assignment recency (the later trail position first).\<close>

definition trail_larger :: "Internal \<Rightarrow> int \<Rightarrow> int \<Rightarrow> bool" where
  "trail_larger s a b =
     (v_level (var s a) > v_level (var s b) \<or>
      (v_level (var s a) = v_level (var s b) \<and> v_trail (var s a) > v_trail (var s b)))"

text \<open>Modelled from the spec: \<^verbatim>\<open>new_learned_redundant_clause\<close> is not part of the sources.
  It is the factory of the clause store: a new redundant clause object from the literals
  of the clause buffer, tagged with the glue.  The specification does not say when a new
  clause receives a timestamp slot; the new object has none.\<close>

definition new_learned_redundant_clause :: "int \<Rightarrow> Internal \<Rightarrow> cref \<times> Internal" where
  "new_learned_redundant_clause g s =
     (num_clauses s,
      s\<lparr>clauses := (clauses s)(num_clauses s :=
           \<lparr>literals = clause s, redundant = True, hbr = False, used = False,
            have_analyzed = False, c_analyzed = 0, glue = g\<rparr>),
        num_clauses := num_clauses s + 1\<rparr>)"

text \<open>Modelled from the spec: \<^verbatim>\<open>backtrack\<close> is not part of the sources.  It truncates the
  trail back to the target level: the literals assigned above the level are removed from
  the end of the trail and unassigned, the level records backtracked past are reset, and
  the target level becomes the current one.\<close>

definition backtrack :: "nat \<Rightarrow> Internal \<Rightarrow> Internal" where
  "backtrack target s =
     (let kept = takeWhile (\<lambda>lit. v_level (var s lit) \<le> target) (trail s);
          undone = drop (length kept) (trail s)
      in s\<lparr>trail := kept,
           vals := (\<lambda>idx. if idx \<in> vidx ` set undone then 0 else vals s idx),
           control := (\<lambda>l. if l > target then level_reset else control s l),
           level := target\<rparr>)"

text \<open>Modelled from the spec: the assignment of a literal is not part of the sources.  The
  literal becomes true at the current level, at the end of the trail, with the given
  reason.\<close>

definition assign :: "int \<Rightarrow> cref option \<Rightarrow> Internal \<Rightarrow> Internal" where
  "assign lit reason s =
     s\<lparr>vals := (vals s)(vidx lit := (if lit < 0 then - 1 else 1)),
       vtab := (vtab s)(vidx lit :=
          \<lparr>v_level = level s, v_trail = length (trail s), v_reason = reason\<rparr>),
       trail := trail s @ [lit]\<rparr>"

text \<open>Modelled from the spec: \<^verbatim>\<open>assign_driving\<close> is not part of the sources; it assigns
  the literal at the current level with the driving clause as its reason.\<close>

definition assign_driving :: "int \<Rightarrow> cref \<Rightarrow> Internal \<Rightarrow> Internal" where
  "assign_driving lit c s = assign lit (Some c) s"

text \<open>Modelled from the spec: \<^verbatim>\<open>assign_unit\<close> is not part of the sources; it records the
  literal as a fixed top-level unit, without a clause object, through
  \<^verbatim>\<open>learn_unit_clause\<close>.\<close>

definition assign_unit :: "int \<Rightarrow> Internal \<Rightarrow> error + Internal" where
  "assign_unit lit s = learn_unit_clause lit (assign lit None s)"

section \<open>The analysis\<close>

text \<open>\<^verbatim>\<open>while (!flags (uip = *--i).seen);\<close> with the iterator \<open>i\<close> as the number of trail
  literals before it.  Decrementing the iterator at the beginning of the trail is
  undefined in the source and \<open>None\<close> here.\<close>

fun find_seen :: "Internal \<Rightarrow> nat \<Rightarrow> (nat \<times> int) option" where
  "find_seen s 0 = None"
| "find_seen s (Suc i) =
     (let uip = trail s ! i in
      if seen (flags s uip) then Some (i, uip) else find_seen s i)"

lemma find_seen_less: "find_seen s i = Some (j, uip) \<Longrightarrow> j < i"
  by (induction i) (auto simp: Let_def split: if_splits)

text \<open>The loop that derives the first UIP clause.  The local \<^verbatim>\<open>other\<close> of the source is
  0 throughout.\<close>

function walk :: "Internal \<Rightarrow> cref option \<Rightarrow> int \<Rightarrow> int \<Rightarrow> nat \<Rightarrow> error + Internal \<times> int" where
  "walk s reason uip opn i =
     (let other = 0 in
      case (case reason of
              Some r \<Rightarrow> analyze_reason uip r (s, opn)
            | None \<Rightarrow> analyze_literal other (s, opn)) of
        Inl e \<Rightarrow> Inl e
      | Inr (s1, opn1) \<Rightarrow>
          (case find_seen s1 i of
             None \<Rightarrow> Inl TrailUnderflow
           | Some (j, uip1) \<Rightarrow>
               if opn1 - 1 = 0 then Inr (s1, uip1)
               else walk s1 (v_reason (var s1 uip1)) uip1 (opn1 - 1) j))"
  by pat_completeness auto

termination
  by (relation "measure (\<lambda>(s, reason, uip, opn, i). i)") (auto dest: find_seen_less)

declare walk.simps [simp del]

definition first_uip_clause :: "Internal \<Rightarrow> error + Internal \<times> int" where
  "first_uip_clause s =
     (case walk s (conflict s) 0 0 (length (trail s)) of
        Inl e \<Rightarrow> Inl e
      | Inr (s1, uip) \<Rightarrow> Inr (s1\<lparr>clause := clause s1 @ [- uip]\<rparr>, uip))"

text \<open>The statistics of \<^verbatim>\<open>analyze\<close> between the clause bump and the variable bump.
  \<^verbatim>\<open>minimize_clause\<close> (\<^verbatim>\<open>minimize.cpp\<close>) is not part of the sources and is a parameter: it
  consumes the analyzed batch and the clause buffer and returns the literals of the
  minimized clause.\<close>

definition update_statistics ::
  "(Internal \<Rightarrow> int list) \<Rightarrow> Internal \<Rightarrow> Internal \<times> int \<times> int" where
  "update_statistics minimize_clause s =
     (let g = int (length (levels s));
          s1 = s\<lparr>fast_glue_avg := fast_glue_avg s @ [g]\<rparr>;
          s2 = s1\<lparr>slow_glue_avg := slow_glue_avg s1 @ [g]\<rparr>;
          sz = int (length (clause s2));
          s3 = s2\<lparr>stats := (stats s2)\<lparr>stats_learned := stats_learned (stats s2) + sz\<rparr>\<rparr>;
          s4 = (if sz > 1
                then (if opts_minimize (opts s3) then s3\<lparr>clause := minimize_clause s3\<rparr> else s3)
                else s3);
          sz1 = (if sz > 1 then int (length (clause s4)) else sz);
          s5 = s4\<lparr>stats := (stats s4)
                 \<lparr>stats_units := stats_units (stats s4) + (if sz1 = 1 then 1 else 0),
                  stats_binaries := stats_binaries (stats s4) + (if sz1 = 2 then 1 else 0)\<rparr>\<rparr>;
          s6 = s5\<lparr>size_avg := size_avg s5 @ [sz1]\<rparr>
      in (s6, g, sz1))"

definition backjump :: "int \<Rightarrow> int \<Rightarrow> int \<Rightarrow> Internal \<Rightarrow> error + Internal" where
  "backjump uip g sz s =
     (if sz > 1 then
        let s1 = s\<lparr>clause := sort_by (trail_larger s) (clause s)\<rparr>;
            (driving_clause, s2) = new_learned_redundant_clause g s1;
            jump = v_level (var s2 (clause s2 ! 1));
            s3 = s2\<lparr>jump_avg := jump_avg s2 @ [int jump]\<rparr>;
            s4 = backtrack jump s3
        in Inr (assign_driving (- uip) driving_clause s4)
      else
        let s1 = s\<lparr>iterating := True\<rparr>;
            s2 = s1\<lparr>jump_avg := jump_avg s1 @ [0]\<rparr>;
            s3 = backtrack 0 s2
        in assign_unit (- uip) s3)"

definition cleanup :: "Internal \<Rightarrow> error + Internal" where
  "cleanup s =
     (case clear_seen s of
        Inl e \<Rightarrow> Inl e
      | Inr s1 \<Rightarrow> Inr ((clear_levels (s1\<lparr>clause := []\<rparr>))\<lparr>conflict := None\<rparr>))"

text \<open>\<^verbatim>\<open>analyze\<close> up to the bump of the variables: the first UIP clause, its check, the
  bump of the resolved clauses, the statistics and the bump of the analyzed variables.
  The result is the state with the first UIP, the glue and the final size.\<close>

definition analyze_prefix ::
  "(Internal \<Rightarrow> int list) \<Rightarrow> Internal \<Rightarrow> error + Internal \<times> int \<times> int \<times> int" where
  "analyze_prefix minimize_clause s =
     (case first_uip_clause s of
        Inl e \<Rightarrow> Inl e
      | Inr (s1, uip) \<Rightarrow>
          (case check_learned_clause s1 of
             Inl e \<Rightarrow> Inl e
           | Inr s2 \<Rightarrow>
               (case bump_resolved_clauses s2 of
                  Inl e \<Rightarrow> Inl e
                | Inr s3 \<Rightarrow>
                    (case update_statistics minimize_clause s3 of
                       (s4, g, sz) \<Rightarrow> Inr (bump_variables s4, uip, g, sz)))))"

definition analyze :: "(Internal \<Rightarrow> int list) \<Rightarrow> Internal \<Rightarrow> error + Internal" where
  "analyze minimize_clause s =
     (if conflict s = None then Inl AssertionFailed
      else if level s = 0 then learn_empty_clause s
      else
        case analyze_prefix minimize_clause s of
          Inl e \<Rightarrow> Inl e
        | Inr (s4, uip, g, sz) \<Rightarrow>
            (case backjump uip g sz s4 of
               Inl e \<Rightarrow> Inl e
             | Inr s5 \<Rightarrow> cleanup s5))"

section \<open>The orders, the jump level and the first UIP clause of the specification\<close>

text \<open>The trail-weighted order in the words of the specification: ascending sum of the
  bump stamp and the trail position, ties broken by ascending trail position.\<close>

definition trail_weighted_le :: "Internal \<Rightarrow> int \<Rightarrow> int \<Rightarrow> bool" where
  "trail_weighted_le s a b =
     (bumped s a + int (v_trail (var s a)) < bumped s b + int (v_trail (var s b)) \<or>
      (bumped s a + int (v_trail (var s a)) = bumped s b + int (v_trail (var s b)) \<and>
       v_trail (var s a) \<le> v_trail (var s b)))"

definition level_recency_ge :: "Internal \<Rightarrow> int \<Rightarrow> int \<Rightarrow> bool" where
  "level_recency_ge s a b =
     (v_level (var s a) > v_level (var s b) \<or>
      (v_level (var s a) = v_level (var s b) \<and> v_trail (var s a) \<ge> v_trail (var s b)))"

definition jump_level :: "Internal \<Rightarrow> nat" where
  "jump_level s = v_level (var s (sort_by (trail_larger s) (clause s) ! 1))"

text \<open>The first UIP clause in the words of the specification, the "derivation of the
  first unique-implication-point clause via trail-ordered resolution".
  \<open>conflict_literals\<close> is the conflict without the literals fixed at level 0, which
  contribute nothing.  \<open>resolve s u C\<close> resolves the clause \<open>C\<close> with the reason of the trail
  literal \<open>u\<close> when \<open>C\<close> has the negation of \<open>u\<close>; a decision has no reason and stays.
  \<open>resolvent s i\<close> is the conflict resolved with the reasons of the trail literals from
  position \<open>i\<close> on, the latest first.  The first UIP clause is the first of these
  resolvents, going down from the end of the trail, with exactly one literal of the current
  level, and the first UIP is the trail literal that this literal negates.
  \<open>antecedent s a b\<close> is an edge of the implication graph: the reason of \<open>b\<close> has the
  negation of \<open>a\<close>.  A unique implication point is a literal on every path of the graph
  from the decision of the current level to the conflict.\<close>

definition conflict_literals :: "Internal \<Rightarrow> int list" where
  "conflict_literals s =
     (case conflict s of
        None \<Rightarrow> []
      | Some c \<Rightarrow> remdups (filter (\<lambda>l. v_level (var s l) \<noteq> 0) (literals (clauses s c))))"

definition resolve :: "Internal \<Rightarrow> int \<Rightarrow> int list \<Rightarrow> int list" where
  "resolve s u C =
     (if - u \<in> set C
      then (case v_reason (var s u) of
              None \<Rightarrow> C
            | Some r \<Rightarrow>
                remdups (removeAll (- u) C @
                  filter (\<lambda>l. l \<noteq> u \<and> v_level (var s l) \<noteq> 0) (literals (clauses s r))))
      else C)"

definition resolvent :: "Internal \<Rightarrow> nat \<Rightarrow> int list" where
  "resolvent s i = fold (resolve s) (rev (drop i (trail s))) (conflict_literals s)"

definition antecedent :: "Internal \<Rightarrow> int \<Rightarrow> int \<Rightarrow> bool" where
  "antecedent s a b =
     (case v_reason (var s b) of
        None \<Rightarrow> False
      | Some r \<Rightarrow> - a \<in> set (literals (clauses s r)))"

section \<open>The queue as a list\<close>

text \<open>The abstraction of the linked queue: \<open>chain lt p xs n\<close> holds when the variables
  \<open>xs\<close> are linked in this order between the predecessor \<open>p\<close> and the successor \<open>n\<close>;
  \<open>queue_list lt q xs\<close> when the whole queue is the duplicate-free list \<open>xs\<close>, from the
  anchor \<open>q_first\<close> to the front \<open>q_last\<close>.\<close>

fun chain :: "(nat \<Rightarrow> Link) \<Rightarrow> nat \<Rightarrow> nat list \<Rightarrow> nat \<Rightarrow> bool" where
  "chain lt p [] n = True"
| "chain lt p (x # xs) n =
     (x \<noteq> 0 \<and> prev (lt x) = p \<and> next (lt x) = (case xs of [] \<Rightarrow> n | y # _ \<Rightarrow> y) \<and> chain lt x xs n)"

definition queue_list :: "(nat \<Rightarrow> Link) \<Rightarrow> Queue \<Rightarrow> nat list \<Rightarrow> bool" where
  "queue_list lt q xs =
     (distinct xs \<and> chain lt 0 xs 0 \<and>
      q_first q = (if xs = [] then 0 else hd xs) \<and>
      q_last q = (if xs = [] then 0 else last xs))"

section \<open>Invariants of the search state\<close>

text \<open>The invariants of the solver that the analysis relies on, as predicates that can be
  evaluated.  \<open>trail_ok\<close>: every trail literal is true, knows its position and has a level up
  to the current one, and the levels never decrease along the trail.
  \<open>falsified_before s p lit\<close>: the negation of the literal is on the trail before position
  \<open>p\<close>.  \<open>reasons_ok\<close>: the other literals of a reason were falsified before the literal it
  forced, and a decision is the first literal of its level.  \<open>conflict_ok\<close>: the conflict is
  falsified and has a literal of the current level.  \<open>open_count s0 s i\<close>: the seen literals
  of the current level before position \<open>i\<close> of the trail.\<close>

definition trail_ok :: "Internal \<Rightarrow> bool" where
  "trail_ok s =
     (map (\<lambda>lit. v_trail (var s lit)) (trail s) = [0..<length (trail s)] \<and>
      list_all (\<lambda>lit. lit \<noteq> 0 \<and> val s lit > 0 \<and> v_level (var s lit) \<le> level s) (trail s) \<and>
      sorted (map (\<lambda>lit. v_level (var s lit)) (trail s)))"

definition falsified_before :: "Internal \<Rightarrow> nat \<Rightarrow> int \<Rightarrow> bool" where
  "falsified_before s p lit =
     (lit \<noteq> 0 \<and> v_trail (var s lit) < p \<and> p \<le> length (trail s) \<and>
      trail s ! v_trail (var s lit) = - lit)"

definition reasons_ok :: "Internal \<Rightarrow> bool" where
  "reasons_ok s =
     list_all
       (\<lambda>u. case v_reason (var s u) of
              Some r \<Rightarrow>
                list_all (\<lambda>other. other = u \<or> falsified_before s (v_trail (var s u)) other)
                  (literals (clauses s r))
            | None \<Rightarrow>
                v_level (var s u) = 0 \<or>
                list_all (\<lambda>w. v_level (var s w) < v_level (var s u))
                  (take (v_trail (var s u)) (trail s)))
       (trail s)"

definition conflict_ok :: "Internal \<Rightarrow> bool" where
  "conflict_ok s =
     (case conflict s of
        None \<Rightarrow> False
      | Some c \<Rightarrow>
          list_all (falsified_before s (length (trail s))) (literals (clauses s c)) \<and>
          list_ex (\<lambda>lit. v_level (var s lit) = level s) (literals (clauses s c)))"

definition open_count :: "Internal \<Rightarrow> Internal \<Rightarrow> nat \<Rightarrow> nat" where
  "open_count s0 s i =
     card {p. p < i \<and> seen (flags s (trail s0 ! p)) \<and>
              v_level (var s0 (trail s0 ! p)) = level s0}"

section \<open>Invariants and frames of the analysis\<close>

text \<open>\<open>scratch_frame s t\<close>: the states differ in the scratch data of the analysis only.
  \<open>scratch_clean s\<close>: the state between two analyses, with no seen flag, empty batches and
  no analyzed literal counted on a level.  \<open>walk_inv s0 s\<close>: what the walk that started in
  \<open>s0\<close> maintains.\<close>

definition scratch_frame :: "Internal \<Rightarrow> Internal \<Rightarrow> bool" where
  "scratch_frame s t =
     (\<exists>cl lv co ft an rs cs.
         t = s\<lparr>clause := cl, levels := lv, control := co, ftab := ft, analyzed := an,
               resolved := rs, clauses := cs\<rparr>)"

definition scratch_clean :: "Internal \<Rightarrow> bool" where
  "scratch_clean s =
     ((\<forall>idx. \<not> seen (ftab s idx)) \<and> analyzed s = [] \<and> clause s = [] \<and> levels s = [] \<and>
      resolved s = [] \<and> (\<forall>l. l_seen (control s l) = 0))"

definition walk_inv :: "Internal \<Rightarrow> Internal \<Rightarrow> bool" where
  "walk_inv s0 s =
     (scratch_frame s0 s \<and>
      (\<forall>c. clauses s c = clauses s0 c \<or> clauses s c = (clauses s0 c)\<lparr>used := True\<rparr>) \<and>
      (\<forall>idx. ftab s idx = (ftab s0 idx)\<lparr>seen := idx \<in> vidx ` set (analyzed s)\<rparr>) \<and>
      distinct (map vidx (analyzed s)) \<and>
      (\<forall>lit \<in> set (analyzed s). lit \<noteq> 0 \<and> v_level (var s0 lit) \<noteq> 0 \<and> val s0 lit < 0) \<and>
      clause s = filter (\<lambda>lit. v_level (var s0 lit) < level s0) (analyzed s) \<and>
      (\<forall>c \<in> set (resolved s). have_analyzed (clauses s0 c)) \<and>
      (\<forall>l. l \<notin> set (levels s) \<longrightarrow> control s l = control s0 l \<and> l_seen (control s0 l) = 0))"

text \<open>\<open>resolving s0 s r uip i\<close>: what holds when the walk that started in \<open>s0\<close> is about to
  analyze the reason \<open>r\<close> of the literal \<open>uip\<close> with its cursor at \<open>i\<close>.  Every analyzed
  literal is falsified on the trail; the resolvent at \<open>i\<close> is made of the analyzed literals
  assigned before \<open>i\<close> and of the literals that \<open>r\<close> contributes; every resolvent above \<open>i\<close>
  has more than one literal of the current level; and the batch is the literals of the
  resolvents above \<open>i\<close>.  \<open>resolved_to s0 s i\<close>: the same once the reason has been
  analyzed.  \<open>implied_on_level s\<close>: every forced literal of the current level has an
  antecedent of the current level, as it has when the propagation had come to an end
  before the level was opened.\<close>

definition resolving :: "Internal \<Rightarrow> Internal \<Rightarrow> cref \<Rightarrow> int \<Rightarrow> nat \<Rightarrow> bool" where
  "resolving s0 s r uip i =
     ((\<forall>l \<in> set (analyzed s). falsified_before s0 (length (trail s0)) l) \<and>
      set (resolvent s0 i) =
        {l \<in> set (analyzed s). v_trail (var s0 l) < i} \<union>
        {l \<in> set (literals (clauses s0 r)). l \<noteq> uip \<and> v_level (var s0 l) \<noteq> 0} \<and>
      (\<forall>q. i < q \<and> q \<le> length (trail s0) \<longrightarrow>
         1 < length (filter (\<lambda>l. v_level (var s0 l) = level s0) (resolvent s0 q))) \<and>
      set (analyzed s) = (\<Union>q \<in> {i<..length (trail s0)}. set (resolvent s0 q)))"

definition resolved_to :: "Internal \<Rightarrow> Internal \<Rightarrow> nat \<Rightarrow> bool" where
  "resolved_to s0 s i =
     ((\<forall>l \<in> set (analyzed s). falsified_before s0 (length (trail s0)) l) \<and>
      set (resolvent s0 i) = {l \<in> set (analyzed s). v_trail (var s0 l) < i} \<and>
      (\<forall>q. i < q \<and> q \<le> length (trail s0) \<longrightarrow>
         1 < length (filter (\<lambda>l. v_level (var s0 l) = level s0) (resolvent s0 q))) \<and>
      set (analyzed s) = (\<Union>q \<in> {i..length (trail s0)}. set (resolvent s0 q)))"

definition implied_on_level :: "Internal \<Rightarrow> bool" where
  "implied_on_level s =
     list_all
       (\<lambda>u. v_level (var s u) = level s \<and> v_reason (var s u) \<noteq> None \<longrightarrow>
              list_ex (\<lambda>a. antecedent s a u \<and> v_level (var s a) = level s) (trail s))
       (trail s)"

text \<open>\<open>stats_frame\<close> and \<open>queue_frame\<close>: what the clause bump, the statistics and the
  variable bump leave alone.\<close>

definition stats_frame :: "Internal \<Rightarrow> Internal \<Rightarrow> bool" where
  "stats_frame s t =
     (\<exists>cl an rs cs st fa sa za lt q bt.
         t = s\<lparr>clause := cl, analyzed := an, resolved := rs, clauses := cs, stats := st,
               fast_glue_avg := fa, slow_glue_avg := sa, size_avg := za,
               ltab := lt, queue := q, btab := bt\<rparr>)"

definition queue_frame :: "Internal \<Rightarrow> Internal \<Rightarrow> bool" where
  "queue_frame s t =
     (\<exists>lt q bt b bl. t = s\<lparr>ltab := lt, queue := q, btab := bt,
         stats := (stats s)\<lparr>stats_bumped := b, stats_bumplast := bl\<rparr>\<rparr>)"

definition flags_frame :: "Internal \<Rightarrow> Internal \<Rightarrow> bool" where
  "flags_frame s t =
     (scratch_frame s t \<and> (\<forall>idx. \<exists>b. ftab t idx = (ftab s idx)\<lparr>seen := b\<rparr>))"

section \<open>Concrete states\<close>

text \<open>The scenario of the specification: three variables, decisions 1 at level 1 and 2 at
  level 2, the literal 3 forced at level 2 by the clause \<open>[-1, -2, 3]\<close>, and the conflict
  \<open>[-2, -3]\<close>.  Variable 3 is at the front of the queue.\<close>

definition unset_flags :: Flags where
  "unset_flags = \<lparr>seen = False, keep = False, poison = False, removable = False, status = ACTIVE\<rparr>"

definition blank :: Internal where
  "blank = \<lparr>level = 0, unsat = False, iterating = False, proof_log = None, conflict = None,
     trail = [], vals = (\<lambda>_. 0), vtab = (\<lambda>_. \<lparr>v_level = 0, v_trail = 0, v_reason = None\<rparr>),
     ftab = (\<lambda>_. unset_flags), btab = (\<lambda>_. 0), ltab = (\<lambda>_. \<lparr>prev = 0, next = 0\<rparr>),
     queue = \<lparr>q_first = 0, q_last = 0, q_unassigned = 0\<rparr>,
     control = (\<lambda>_. \<lparr>l_seen = 0, l_trail = 2147483647\<rparr>),
     clauses = (\<lambda>_. \<lparr>literals = [], redundant = False, hbr = False, used = False,
                        have_analyzed = False, c_analyzed = 0, glue = 0\<rparr>),
     num_clauses = 0, clause = [], levels = [], analyzed = [], resolved = [],
     stats = \<lparr>stats_bumped = 0, stats_bumplast = 0, stats_trailbumped = 0, stats_analyzed = 0,
              stats_learned = 0, stats_units = 0, stats_binaries = 0, stats_fixed = 0,
              stats_propagations = 0, stats_decisions = 0\<rparr>,
     opts = \<lparr>opts_trailbump = True, opts_trailbumprops = 200, opts_trailbumplast = 40,
             opts_minimize = True\<rparr>,
     fast_glue_avg = [], slow_glue_avg = [], size_avg = [], jump_avg = []\<rparr>"

definition scenario :: Internal where
  "scenario = blank\<lparr>level := 2, conflict := Some 2, trail := [1, 2, 3],
     vals := (\<lambda>_. 0)(1 := 1, 2 := 1, 3 := 1),
     vtab := (\<lambda>_. \<lparr>v_level = 0, v_trail = 0, v_reason = None\<rparr>)
       (1 := \<lparr>v_level = 1, v_trail = 0, v_reason = None\<rparr>,
        2 := \<lparr>v_level = 2, v_trail = 1, v_reason = None\<rparr>,
        3 := \<lparr>v_level = 2, v_trail = 2, v_reason = Some 1\<rparr>),
     btab := (\<lambda>_. 0)(1 := 1, 2 := 2, 3 := 3),
     ltab := (\<lambda>_. \<lparr>prev = 0, next = 0\<rparr>)
       (1 := \<lparr>prev = 0, next = 2\<rparr>, 2 := \<lparr>prev = 1, next = 3\<rparr>, 3 := \<lparr>prev = 2, next = 0\<rparr>),
     queue := \<lparr>q_first = 1, q_last = 3, q_unassigned = 0\<rparr>,
     clauses := (\<lambda>_. \<lparr>literals = [], redundant = False, hbr = False, used = False,
                        have_analyzed = False, c_analyzed = 0, glue = 0\<rparr>)
       (1 := \<lparr>literals = [-1, -2, 3], redundant = False, hbr = False, used = False,
               have_analyzed = False, c_analyzed = 0, glue = 0\<rparr>,
        2 := \<lparr>literals = [-2, -3], redundant = True, hbr = False, used = False,
               have_analyzed = True, c_analyzed = 5, glue = 2\<rparr>),
     num_clauses := 3,
     stats := (stats blank)\<lparr>stats_bumped := 3, stats_analyzed := 5\<rparr>\<rparr>"

text \<open>The scenario with the queue in the order 3, 2, 1 (variable 1 at the front), an analyzed
  batch, and statistics that switch the trail-weighted order on: 1000 propagations per
  decision exceed the limit 200 and 100 percent of bumps on the last level exceed the limit
  40.  The stamp and the trail position add up to 3 for every variable, so the trail
  position decides, against the order of the stamps.\<close>

definition busy :: Internal where
  "busy = scenario\<lparr>analyzed := [- 2, - 3, - 1],
     btab := (\<lambda>_. 0)(1 := 3, 2 := 2, 3 := 1),
     ltab := (\<lambda>_. \<lparr>prev = 0, next = 0\<rparr>)
       (3 := \<lparr>prev = 0, next = 2\<rparr>, 2 := \<lparr>prev = 3, next = 1\<rparr>, 1 := \<lparr>prev = 2, next = 0\<rparr>),
     queue := \<lparr>q_first = 3, q_last = 1, q_unassigned = 0\<rparr>,
     stats := (stats scenario)\<lparr>stats_propagations := 1000, stats_decisions := 1, stats_bumplast := 3\<rparr>\<rparr>"

text \<open>The same state with 200 propagations per decision, which do not exceed the limit
  200.\<close>

definition calm :: Internal where
  "calm = busy\<lparr>stats := (stats busy)\<lparr>stats_propagations := 200\<rparr>\<rparr>"

definition unit_scenario :: Internal where
  "unit_scenario = blank\<lparr>level := 1, conflict := Some 2, trail := [1, 2], proof_log := Some [],
     vals := (\<lambda>_. 0)(1 := 1, 2 := 1),
     vtab := (\<lambda>_. \<lparr>v_level = 0, v_trail = 0, v_reason = None\<rparr>)
       (1 := \<lparr>v_level = 1, v_trail = 0, v_reason = None\<rparr>,
        2 := \<lparr>v_level = 1, v_trail = 1, v_reason = Some 1\<rparr>),
     btab := (\<lambda>_. 0)(1 := 1, 2 := 2),
     ltab := (\<lambda>_. \<lparr>prev = 0, next = 0\<rparr>)
       (1 := \<lparr>prev = 0, next = 2\<rparr>, 2 := \<lparr>prev = 1, next = 0\<rparr>),
     queue := \<lparr>q_first = 1, q_last = 2, q_unassigned = 0\<rparr>,
     clauses := (\<lambda>_. \<lparr>literals = [], redundant = False, hbr = False, used = False,
                        have_analyzed = False, c_analyzed = 0, glue = 0\<rparr>)
       (1 := \<lparr>literals = [- 1, 2], redundant = False, hbr = False, used = False,
               have_analyzed = False, c_analyzed = 0, glue = 0\<rparr>,
        2 := \<lparr>literals = [- 1, - 2], redundant = False, hbr = False, used = False,
               have_analyzed = False, c_analyzed = 0, glue = 0\<rparr>),
     num_clauses := 3,
     stats := (stats blank)\<lparr>stats_bumped := 2\<rparr>\<rparr>"

text \<open>A conflict whose first UIP is not the last literal of the trail: the decisions 1 at
  level 1 and 2 at level 2, the literals 3 and 4 forced at level 2 by \<open>[-2, 3]\<close> and
  \<open>[-2, 4]\<close>, and the conflict \<open>[-1, -3]\<close>, which does not depend on 4.\<close>

definition detour :: Internal where
  "detour = blank\<lparr>level := 2, conflict := Some 3, trail := [1, 2, 3, 4],
     vals := (\<lambda>_. 0)(1 := 1, 2 := 1, 3 := 1, 4 := 1),
     vtab := (\<lambda>_. \<lparr>v_level = 0, v_trail = 0, v_reason = None\<rparr>)
       (1 := \<lparr>v_level = 1, v_trail = 0, v_reason = None\<rparr>,
        2 := \<lparr>v_level = 2, v_trail = 1, v_reason = None\<rparr>,
        3 := \<lparr>v_level = 2, v_trail = 2, v_reason = Some 1\<rparr>,
        4 := \<lparr>v_level = 2, v_trail = 3, v_reason = Some 2\<rparr>),
     clauses := (\<lambda>_. \<lparr>literals = [], redundant = False, hbr = False, used = False,
                        have_analyzed = False, c_analyzed = 0, glue = 0\<rparr>)
       (1 := \<lparr>literals = [- 2, 3], redundant = False, hbr = False, used = False,
               have_analyzed = False, c_analyzed = 0, glue = 0\<rparr>,
        2 := \<lparr>literals = [- 2, 4], redundant = False, hbr = False, used = False,
               have_analyzed = False, c_analyzed = 0, glue = 0\<rparr>,
        3 := \<lparr>literals = [- 1, - 3], redundant = False, hbr = False, used = False,
               have_analyzed = False, c_analyzed = 0, glue = 0\<rparr>),
     num_clauses := 4\<rparr>"

section \<open>Properties of the queue, the sort and the analysis\<close>

lemma chain_append:
  "chain lt p (xs @ ys) n =
     (chain lt p xs (case ys of [] \<Rightarrow> n | y # _ \<Rightarrow> y) \<and>
      chain lt (if xs = [] then p else last xs) ys n)"
  by (induction xs arbitrary: p) (auto split: list.splits)

lemma chain_upd_notin:
  "x \<notin> set xs \<Longrightarrow> chain (lt(x := l)) p xs n = chain lt p xs n"
  by (induction xs arbitrary: p) auto

lemma chain_nonzero: "chain lt p xs n \<Longrightarrow> 0 \<notin> set xs"
  by (induction xs arbitrary: p) auto

lemma chain_set_prev:
  "chain lt p (z # zs) n \<Longrightarrow> z \<notin> set zs \<Longrightarrow>
   chain (lt(z := (lt z)\<lparr>prev := p'\<rparr>)) p' (z # zs) n"
  by (simp add: chain_upd_notin)

lemma chain_set_next:
  "chain lt p (ys @ [y]) n \<Longrightarrow> y \<notin> set ys \<Longrightarrow>
   chain (lt(y := (lt y)\<lparr>next := n'\<rparr>)) p (ys @ [y]) n'"
  by (simp add: chain_append chain_upd_notin)

lemma dequeue_middle:
  assumes "queue_list lt q (ys @ x # zs)" and "zs \<noteq> []"
  shows "queue_list (fst (dequeue x (lt, q))) (snd (dequeue x (lt, q))) (ys @ zs)"
proof -
  obtain z zs' where zs: "zs = z # zs'" using assms(2) by (cases zs) auto
  have d: "distinct (ys @ x # z # zs')" and c: "chain lt 0 (ys @ x # z # zs') 0"
    and f: "q_first q = hd (ys @ x # z # zs')"
    and l: "q_last q = last (z # zs')"
    using assms(1) unfolding queue_list_def zs by auto
  have nz: "z \<noteq> 0" "x \<noteq> 0" using chain_nonzero[OF c] by auto
  show ?thesis
  proof (cases ys rule: rev_cases)
    case Nil
    then show ?thesis using d c f l nz
      by (auto simp: queue_list_def dequeue_def zs Let_def chain_upd_notin split: list.splits)
  next
    case (snoc ys' y)
    have ny: "y \<noteq> 0" using chain_nonzero[OF c] snoc by auto
    show ?thesis using d c f l nz ny unfolding snoc
      by (auto simp: queue_list_def dequeue_def zs Let_def chain_upd_notin chain_append hd_append split: list.splits)
  qed
qed

lemma dequeue_same:
  assumes "queue_list lt q (ys @ x # zs)"
  shows "fst (dequeue x (lt, q)) x = lt x"
proof -
  have c: "chain lt 0 (ys @ x # zs) 0" and d: "distinct (ys @ x # zs)"
    using assms unfolding queue_list_def by auto
  have "prev (lt x) \<noteq> x" "next (lt x) \<noteq> x"
    using c d by (cases ys rule: rev_cases; cases zs; auto simp: chain_append)+
  then show ?thesis
    by (auto simp: dequeue_def Let_def split: prod.splits)
qed

lemma enqueue_end:
  assumes "queue_list lt q xs" and "x \<notin> set xs" and "x \<noteq> 0"
  shows "queue_list (fst (enqueue x (lt, q))) (snd (enqueue x (lt, q))) (xs @ [x])"
proof (cases xs rule: rev_cases)
  case Nil
  then show ?thesis using assms
    by (auto simp: queue_list_def enqueue_def Let_def)
next
  case (snoc ys y)
  have ny: "y \<noteq> 0" using assms(1) chain_nonzero[of lt 0 xs 0] snoc by (auto simp: queue_list_def)
  show ?thesis using assms ny unfolding snoc
    by (auto simp: queue_list_def enqueue_def Let_def chain_append chain_upd_notin hd_append split: list.splits)
qed

lemma queue_list_front:
  assumes "queue_list lt q xs" and "x \<in> set xs"
  shows "(next (lt x) = 0) = (x = last xs)"
proof -
  obtain ys zs where xs: "xs = ys @ x # zs" using assms(2) by (auto simp: in_set_conv_decomp)
  have c: "chain lt 0 (ys @ x # zs) 0" and d: "distinct (ys @ x # zs)"
    using assms(1) unfolding queue_list_def xs by auto
  show ?thesis
  proof (cases zs)
    case Nil
    then show ?thesis using c by (simp add: xs chain_append)
  next
    case (Cons z zs')
    have "z \<noteq> 0" using chain_nonzero[OF c] Cons by auto
    moreover have "next (lt x) = z" using c Cons by (simp add: chain_append)
    moreover have "last xs \<noteq> x" using d Cons unfolding xs by auto
    ultimately show ?thesis by auto
  qed
qed

lemma requeue:
  assumes q: "queue_list lt q xs" and x: "x \<in> set xs" and n: "next (lt x) \<noteq> 0"
  shows "queue_list (fst (enqueue x (dequeue x (lt, q)))) (snd (enqueue x (dequeue x (lt, q))))
           (remove1 x xs @ [x])"
proof -
  obtain ys zs where xs: "xs = ys @ x # zs" using x by (auto simp: in_set_conv_decomp)
  have d: "distinct (ys @ x # zs)" and c: "chain lt 0 xs 0" using q unfolding queue_list_def xs by auto
  have "x \<noteq> last xs" using queue_list_front[OF q x] n by simp
  then have zs: "zs \<noteq> []" unfolding xs by auto
  have r: "remove1 x xs = ys @ zs" using d unfolding xs by (simp add: remove1_append)
  have x0: "x \<noteq> 0" using chain_nonzero[OF c] x by (cases "x = 0") simp_all
  have "queue_list (fst (dequeue x (lt, q))) (snd (dequeue x (lt, q))) (ys @ zs)"
    using dequeue_middle[OF q[unfolded xs] zs] .
  moreover have "x \<notin> set (ys @ zs)" using d by auto
  ultimately show ?thesis
    using enqueue_end[of "fst (dequeue x (lt, q))" "snd (dequeue x (lt, q))" "ys @ zs" x] x0
    unfolding r by simp
qed

lemma queue_list_unassigned [simp]:
  "queue_list lt (q\<lparr>q_unassigned := u\<rparr>) xs = queue_list lt q xs"
  by (simp add: queue_list_def)

lemma queue_unassigned_requeue:
  "q_unassigned (snd (enqueue x (dequeue x (lt, q)))) = q_unassigned q"
  by (simp add: enqueue_def dequeue_def Let_def split: prod.splits)

lemma bump_variable_moved:
  assumes "queue_list (ltab s) (queue s) xs" and "vidx lit \<in> set xs"
  shows "(vidx lit = last xs \<longrightarrow> bump_variable lit s = s) \<and>
         (vidx lit \<noteq> last xs \<longrightarrow>
            queue_list (ltab (bump_variable lit s)) (queue (bump_variable lit s))
              (remove1 (vidx lit) xs @ [vidx lit]) \<and>
            stats_bumped (stats (bump_variable lit s)) = stats_bumped (stats s) + 1 \<and>
            btab (bump_variable lit s) = (btab s)(vidx lit := stats_bumped (stats s) + 1) \<and>
            stats_bumplast (stats (bump_variable lit s)) =
              stats_bumplast (stats s) + (if v_level (var s lit) = level s then 1 else 0) \<and>
            q_unassigned (queue (bump_variable lit s)) =
              (if vals s (vidx lit) = 0 then vidx lit else q_unassigned (queue s)))"
proof -
  let ?x = "vidx lit"
  have fr: "(next (ltab s ?x) = 0) = (?x = last xs)" using queue_list_front[OF assms] .
  show ?thesis
  proof (cases "?x = last xs")
    case True
    then show ?thesis using fr by (simp add: bump_variable_def)
  next
    case False
    then have n: "next (ltab s ?x) \<noteq> 0" using fr by simp
    obtain lt' q' where e: "enqueue ?x (dequeue ?x (ltab s, queue s)) = (lt', q')"
      by fastforce
    have "queue_list lt' q' (remove1 ?x xs @ [?x])" and "q_unassigned q' = q_unassigned (queue s)"
      using requeue[OF assms n] queue_unassigned_requeue[of ?x "ltab s" "queue s"] e by simp_all
    then show ?thesis using False n e
      by (simp add: bump_variable_def Let_def update_queue_unassigned_def var_def)
  qed
qed

lemma bump_variable_twice:
  assumes q: "queue_list (ltab s) (queue s) xs" and x: "vidx lit \<in> set xs"
    and st: "btab s (last xs) = stats_bumped (stats s)"
  shows "queue_list (ltab (bump_variable lit (bump_variable lit s)))
           (queue (bump_variable lit (bump_variable lit s))) (remove1 (vidx lit) xs @ [vidx lit]) \<and>
         btab (bump_variable lit (bump_variable lit s)) (vidx lit) =
           stats_bumped (stats (bump_variable lit (bump_variable lit s)))"
proof (cases "vidx lit = last xs")
  case True
  then have "bump_variable lit s = s" using bump_variable_moved[OF q x] by simp
  moreover have "remove1 (vidx lit) xs @ [vidx lit] = xs"
  proof -
    have "xs \<noteq> []" using x by auto
    then have e: "xs = butlast xs @ [last xs]" by simp
    have "distinct xs" using q by (simp add: queue_list_def)
    then have "last xs \<notin> set (butlast xs)" using e by (metis distinct_butlast not_distinct_conv_prefix)
    then have "remove1 (last xs) (butlast xs @ [last xs]) = butlast xs"
      by (simp add: remove1_append)
    then show ?thesis using e True by simp
  qed
  ultimately show ?thesis using q st True by simp
next
  case False
  let ?s1 = "bump_variable lit s"
  let ?ys = "remove1 (vidx lit) xs @ [vidx lit]"
  have q1: "queue_list (ltab ?s1) (queue ?s1) ?ys"
    and b1: "btab ?s1 = (btab s)(vidx lit := stats_bumped (stats s) + 1)"
    and c1: "stats_bumped (stats ?s1) = stats_bumped (stats s) + 1"
    using bump_variable_moved[OF q x] False by simp_all
  have "vidx lit = last ?ys" by simp
  moreover have "vidx lit \<in> set ?ys" by simp
  ultimately have "bump_variable lit ?s1 = ?s1" using bump_variable_moved[OF q1] by blast
  then show ?thesis using q1 b1 c1 by simp
qed

lemma bump_variable_front_stamp:
  assumes "queue_list (ltab s) (queue s) xs" and "vidx lit \<in> set xs"
    and "btab s (last xs) = stats_bumped (stats s)"
  shows "btab (bump_variable lit s) (q_last (queue (bump_variable lit s))) =
           stats_bumped (stats (bump_variable lit s))"
proof (cases "vidx lit = last xs")
  case True
  then have "bump_variable lit s = s" using bump_variable_moved[OF assms(1,2)] by simp
  moreover have "q_last (queue s) = last xs" using assms(1,2) by (auto simp: queue_list_def)
  ultimately show ?thesis using assms(3) by simp
next
  case False
  then have "queue_list (ltab (bump_variable lit s)) (queue (bump_variable lit s))
               (remove1 (vidx lit) xs @ [vidx lit])"
    and "btab (bump_variable lit s) = (btab s)(vidx lit := stats_bumped (stats s) + 1)"
    and "stats_bumped (stats (bump_variable lit s)) = stats_bumped (stats s) + 1"
    using bump_variable_moved[OF assms(1,2)] by simp_all
  then show ?thesis by (simp add: queue_list_def)
qed

lemma set_insort_by [simp]: "set (insort_by cmp x ys) = insert x (set ys)"
  by (induction ys) auto

lemma mset_insort_by [simp]: "mset (insort_by cmp x ys) = add_mset x (mset ys)"
  by (induction ys) auto

lemma mset_sort_by [simp]: "mset (sort_by cmp xs) = mset xs"
  by (induction xs) (auto simp: sort_by_def)

lemma set_sort_by [simp]: "set (sort_by cmp xs) = set xs"
  by (metis mset_sort_by set_mset_mset)

lemma length_sort_by [simp]: "length (sort_by cmp xs) = length xs"
  by (metis mset_sort_by size_mset)

lemma sorted_insort_by:
  assumes asym: "\<And>a b. cmp a b \<Longrightarrow> \<not> cmp b a"
    and trans: "\<And>a b c. \<not> cmp b a \<Longrightarrow> \<not> cmp c b \<Longrightarrow> \<not> cmp c a"
  shows "sorted_wrt (\<lambda>a b. \<not> cmp b a) ys \<Longrightarrow> sorted_wrt (\<lambda>a b. \<not> cmp b a) (insort_by cmp x ys)"
proof (induction ys)
  case Nil
  then show ?case by simp
next
  case (Cons y ys)
  show ?case
  proof (cases "cmp y x")
    case True
    then show ?thesis using Cons asym by auto
  next
    case False
    then show ?thesis using Cons trans by auto
  qed
qed

lemma sorted_sort_by:
  assumes asym: "\<And>a b. cmp a b \<Longrightarrow> \<not> cmp b a"
    and trans: "\<And>a b c. \<not> cmp b a \<Longrightarrow> \<not> cmp c b \<Longrightarrow> \<not> cmp c a"
  shows "sorted_wrt (\<lambda>a b. \<not> cmp b a) (sort_by cmp xs)"
  by (induction xs) (auto simp: sort_by_def intro: sorted_insort_by[OF asym trans])

lemma sorted_bumped_earlier: "sorted (map (bumped s) (sort_by (bumped_earlier s) xs))"
proof -
  have "sorted_wrt (\<lambda>a b. \<not> bumped_earlier s b a) (sort_by (bumped_earlier s) xs)"
    by (rule sorted_sort_by) (auto simp: bumped_earlier_def)
  then show ?thesis by (simp add: sorted_map bumped_earlier_def not_less)
qed

lemma sorted_trail_bumped_smaller:
  "sorted_wrt (trail_weighted_le s) (sort_by (trail_bumped_smaller s) xs)"
proof -
  have "sorted_wrt (\<lambda>a b. \<not> trail_bumped_smaller s b a) (sort_by (trail_bumped_smaller s) xs)"
    by (rule sorted_sort_by) (auto simp: trail_bumped_smaller_def Let_def split: if_splits)
  moreover have "(\<lambda>a b. \<not> trail_bumped_smaller s b a) = trail_weighted_le s"
    by (intro ext) (auto simp: trail_bumped_smaller_def trail_weighted_le_def Let_def)
  ultimately show ?thesis by simp
qed

lemma bump_clause_ok:
  "have_analyzed (clauses s c) \<Longrightarrow>
   bump_clause c s = Inr (s\<lparr>stats := (stats s)\<lparr>stats_analyzed := stats_analyzed (stats s) + 1\<rparr>,
       clauses := (clauses s)(c := (clauses s c)\<lparr>c_analyzed := stats_analyzed (stats s) + 1\<rparr>)\<rparr>)"
  by (simp add: bump_clause_def Let_def)

lemma bump_clauses_result:
  assumes "\<forall>c \<in> set cs. have_analyzed (clauses s c)"
  shows "\<exists>cl. bump_clauses cs s =
           Inr (s\<lparr>stats := (stats s)\<lparr>stats_analyzed := stats_analyzed (stats s) + int (length cs)\<rparr>,
                  clauses := cl\<rparr>) \<and>
           (\<forall>i < length cs. cs ! i \<notin> set (drop (Suc i) cs) \<longrightarrow>
              cl (cs ! i) = (clauses s (cs ! i))\<lparr>c_analyzed := stats_analyzed (stats s) + 1 + int i\<rparr>) \<and>
           (\<forall>c. c \<notin> set cs \<longrightarrow> cl c = clauses s c)"
  using assms
proof (induction cs arbitrary: s)
  case Nil
  show ?case by (rule exI[of _ "clauses s"]) simp
next
  case (Cons x rest)
  let ?b = "stats_analyzed (stats s)"
  let ?s1 = "s\<lparr>stats := (stats s)\<lparr>stats_analyzed := ?b + 1\<rparr>,
       clauses := (clauses s)(x := (clauses s x)\<lparr>c_analyzed := ?b + 1\<rparr>)\<rparr>"
  have b: "bump_clause x s = Inr ?s1" using Cons.prems by (simp add: bump_clause_ok)
  have "\<forall>c \<in> set rest. have_analyzed (clauses ?s1 c)" using Cons.prems by simp
  from Cons.IH[OF this] obtain cl where
    r: "bump_clauses rest ?s1 =
          Inr (?s1\<lparr>stats := (stats ?s1)\<lparr>stats_analyzed := stats_analyzed (stats ?s1) + int (length rest)\<rparr>,
                   clauses := cl\<rparr>)"
    and n: "\<forall>i < length rest. rest ! i \<notin> set (drop (Suc i) rest) \<longrightarrow>
              cl (rest ! i) = (clauses ?s1 (rest ! i))\<lparr>c_analyzed := stats_analyzed (stats ?s1) + 1 + int i\<rparr>"
    and o: "\<forall>c. c \<notin> set rest \<longrightarrow> cl c = clauses ?s1 c"
    by blast
  have 1: "bump_clauses (x # rest) s =
           Inr (s\<lparr>stats := (stats s)\<lparr>stats_analyzed := ?b + int (length (x # rest))\<rparr>, clauses := cl\<rparr>)"
    using b r by (simp add: add.commute add.left_commute)
  have 2: "(x # rest) ! i \<notin> set (drop (Suc i) (x # rest)) \<longrightarrow>
           cl ((x # rest) ! i) = (clauses s ((x # rest) ! i))\<lparr>c_analyzed := ?b + 1 + int i\<rparr>"
    if "i < length (x # rest)" for i
  proof (cases i)
    case 0
    then show ?thesis using o by simp
  next
    case (Suc j)
    then have "j < length rest" using that by simp
    then show ?thesis using n Suc by (auto simp: add.commute add.left_commute)
  qed
  have 3: "\<forall>c. c \<notin> set (x # rest) \<longrightarrow> cl c = clauses s c" using o by simp
  show ?case using 1 2 3 by blast
qed

lemma scratch_frame_refl: "scratch_frame s s"
  unfolding scratch_frame_def
  by (rule exI[of _ "clause s"], rule exI[of _ "levels s"], rule exI[of _ "control s"],
      rule exI[of _ "ftab s"], rule exI[of _ "analyzed s"], rule exI[of _ "resolved s"],
      rule exI[of _ "clauses s"]) simp

lemma scratch_frame_trans: "scratch_frame s t \<Longrightarrow> scratch_frame t u \<Longrightarrow> scratch_frame s u"
  unfolding scratch_frame_def
  by (elim exE) (simp, blast)

lemma scratch_frame_fields:
  assumes "scratch_frame s0 s"
  shows "level s = level s0" "trail s = trail s0" "vals s = vals s0" "vtab s = vtab s0"
    "conflict s = conflict s0" "btab s = btab s0" "ltab s = ltab s0" "queue s = queue s0"
    "stats s = stats s0" "opts s = opts s0" "num_clauses s = num_clauses s0"
    "unsat s = unsat s0" "iterating s = iterating s0" "proof_log s = proof_log s0"
    "fast_glue_avg s = fast_glue_avg s0" "slow_glue_avg s = slow_glue_avg s0"
    "size_avg s = size_avg s0" "jump_avg s = jump_avg s0"
    "var s = var s0" "val s = val s0"
  using assms unfolding scratch_frame_def by (auto simp: var_def val_def fun_eq_iff)

lemma analyze_literal_cases:
  assumes "analyze_literal lit (s, opn) = Inr (t, opn1)"
  shows "lit \<noteq> 0 \<and>
         ((t = s \<and> opn1 = opn \<and> (seen (flags s lit) \<or> v_level (var s lit) = 0)) \<or>
          (\<not> seen (flags s lit) \<and> v_level (var s lit) \<noteq> 0 \<and> val s lit < 0 \<and>
           opn1 = (if v_level (var s lit) = level s then opn + 1 else opn) \<and>
           t = s\<lparr>clause := (if v_level (var s lit) < level s then clause s @ [lit] else clause s),
                 levels := (if l_seen (control s (v_level (var s lit))) = 0
                            then levels s @ [v_level (var s lit)] else levels s),
                 control := (control s)(v_level (var s lit) :=
                    (if int (v_trail (var s lit)) < l_trail (control s (v_level (var s lit)))
                     then (control s (v_level (var s lit)))
                            \<lparr>l_seen := l_seen (control s (v_level (var s lit))) + 1,
                             l_trail := int (v_trail (var s lit))\<rparr>
                     else (control s (v_level (var s lit)))
                            \<lparr>l_seen := l_seen (control s (v_level (var s lit))) + 1\<rparr>)),
                 ftab := (ftab s)(vidx lit := (ftab s (vidx lit))\<lparr>seen := True\<rparr>),
                 analyzed := analyzed s @ [lit]\<rparr>))"
  using assms
  by (simp add: analyze_literal_def Let_def flags_def var_def split: if_splits)

lemma analyze_literal_new:
  assumes a: "analyze_literal lit (s, opn) = Inr (t, opn1)" and n: "t \<noteq> s"
  shows "lit \<noteq> 0" "\<not> seen (flags s lit)" "v_level (var s lit) \<noteq> 0" "val s lit < 0"
    "opn1 = (if v_level (var s lit) = level s then opn + 1 else opn)"
    "clause t = (if v_level (var s lit) < level s then clause s @ [lit] else clause s)"
    "levels t = (if l_seen (control s (v_level (var s lit))) = 0
                 then levels s @ [v_level (var s lit)] else levels s)"
    "\<forall>l. l \<noteq> v_level (var s lit) \<longrightarrow> control t l = control s l"
    "l_seen (control t (v_level (var s lit))) = l_seen (control s (v_level (var s lit))) + 1"
    "ftab t = (ftab s)(vidx lit := (ftab s (vidx lit))\<lparr>seen := True\<rparr>)"
    "analyzed t = analyzed s @ [lit]"
    "resolved t = resolved s" "clauses t = clauses s"
    "scratch_frame s t"
proof -
  let ?lv = "v_level (var s lit)"
  from analyze_literal_cases[OF a] n have
    b: "lit \<noteq> 0" "\<not> seen (flags s lit)" "?lv \<noteq> 0" "val s lit < 0"
      "opn1 = (if ?lv = level s then opn + 1 else opn)"
    and t: "t = s\<lparr>clause := (if ?lv < level s then clause s @ [lit] else clause s),
                 levels := (if l_seen (control s ?lv) = 0 then levels s @ [?lv] else levels s),
                 control := (control s)(?lv :=
                    (if int (v_trail (var s lit)) < l_trail (control s ?lv)
                     then (control s ?lv)\<lparr>l_seen := l_seen (control s ?lv) + 1,
                             l_trail := int (v_trail (var s lit))\<rparr>
                     else (control s ?lv)\<lparr>l_seen := l_seen (control s ?lv) + 1\<rparr>)),
                 ftab := (ftab s)(vidx lit := (ftab s (vidx lit))\<lparr>seen := True\<rparr>),
                 analyzed := analyzed s @ [lit]\<rparr>"
    by blast+
  show "lit \<noteq> 0" "\<not> seen (flags s lit)" "?lv \<noteq> 0" "val s lit < 0"
    "opn1 = (if ?lv = level s then opn + 1 else opn)" using b by blast+
  show "clause t = (if ?lv < level s then clause s @ [lit] else clause s)"
    by (subst t) simp
  show "levels t = (if l_seen (control s ?lv) = 0 then levels s @ [?lv] else levels s)"
    by (subst t) simp
  show "\<forall>l. l \<noteq> ?lv \<longrightarrow> control t l = control s l"
    by (subst t) simp
  show "l_seen (control t ?lv) = l_seen (control s ?lv) + 1"
    by (subst t) simp
  show "ftab t = (ftab s)(vidx lit := (ftab s (vidx lit))\<lparr>seen := True\<rparr>)"
    by (subst t) simp
  show "analyzed t = analyzed s @ [lit]" by (subst t) simp
  show "resolved t = resolved s" by (subst t) simp
  show "clauses t = clauses s" by (subst t) simp
  show "scratch_frame s t" unfolding scratch_frame_def
    by (subst t, rule exI[of _ "clause t"], rule exI[of _ "levels t"], rule exI[of _ "control t"],
      rule exI[of _ "ftab t"], rule exI[of _ "analyzed t"], rule exI[of _ "resolved s"],
      rule exI[of _ "clauses s"]) (simp add: t)
qed

lemma walk_inv_start: "scratch_clean s \<Longrightarrow> walk_inv s s"
  unfolding walk_inv_def scratch_clean_def by (simp add: scratch_frame_refl)

lemma walk_inv_seen:
  "walk_inv s0 s \<Longrightarrow> seen (flags s lit) = (vidx lit \<in> vidx ` set (analyzed s))"
  unfolding walk_inv_def flags_def by simp

lemma analyze_literal_inv:
  assumes inv: "walk_inv s0 s" and a: "analyze_literal lit (s, opn) = Inr (t, opn1)"
  shows "walk_inv s0 t"
proof (cases "t = s")
  case True
  then show ?thesis using inv by simp
next
  case False
  note n = analyze_literal_new[OF a False]
  have fr: "scratch_frame s0 s" using inv by (simp add: walk_inv_def)
  note f = scratch_frame_fields[OF fr]
  have ns: "vidx lit \<notin> vidx ` set (analyzed s)" using n(2) walk_inv_seen[OF inv] by simp
  have 1: "scratch_frame s0 t" using fr n(14) by (rule scratch_frame_trans)
  have 2: "\<forall>c. clauses t c = clauses s0 c \<or> clauses t c = (clauses s0 c)\<lparr>used := True\<rparr>"
    using inv unfolding walk_inv_def n(13) by blast
  have 3: "\<forall>idx. ftab t idx = (ftab s0 idx)\<lparr>seen := idx \<in> vidx ` set (analyzed t)\<rparr>"
    using inv unfolding walk_inv_def n(10,11) by auto
  have 4: "distinct (map vidx (analyzed t))"
    using inv ns unfolding walk_inv_def n(11) by simp
  have 5: "\<forall>l \<in> set (analyzed t). l \<noteq> 0 \<and> v_level (var s0 l) \<noteq> 0 \<and> val s0 l < 0"
    using inv n(1,3,4) f(19,20) unfolding walk_inv_def n(11) by simp
  have 6: "clause t = filter (\<lambda>l. v_level (var s0 l) < level s0) (analyzed t)"
    using inv f(1,19) unfolding walk_inv_def n(6,11) by simp
  have 7: "\<forall>c \<in> set (resolved t). have_analyzed (clauses s0 c)"
    using inv unfolding walk_inv_def n(12) by blast
  have 8: "\<forall>l. l \<notin> set (levels t) \<longrightarrow> control t l = control s0 l \<and> l_seen (control s0 l) = 0"
  proof (intro allI impI)
    fix l assume l: "l \<notin> set (levels t)"
    have ls: "l \<notin> set (levels s)" using l unfolding n(7) by (auto split: if_splits)
    then have c: "control s l = control s0 l \<and> l_seen (control s0 l) = 0"
      using inv unfolding walk_inv_def by blast
    have "l \<noteq> v_level (var s lit)"
    proof
      assume e: "l = v_level (var s lit)"
      then have "l_seen (control s (v_level (var s lit))) = 0" using c by simp
      then show False using l e unfolding n(7) by simp
    qed
    then show "control t l = control s0 l \<and> l_seen (control s0 l) = 0" using n(8) c by simp
  qed
  show ?thesis unfolding walk_inv_def using 1 2 3 4 5 6 7 8 by blast
qed

lemma analyze_literals_inv:
  "walk_inv s0 s \<Longrightarrow> analyze_literals lit ls (s, opn) = Inr (t, opn1) \<Longrightarrow> walk_inv s0 t"
proof (induction ls arbitrary: s opn)
  case Nil
  then show ?case by simp
next
  case (Cons other rest)
  show ?case
  proof (cases "other \<noteq> lit")
    case True
    then obtain s1 o1 where a: "analyze_literal other (s, opn) = Inr (s1, o1)"
      and r: "analyze_literals lit rest (s1, o1) = Inr (t, opn1)"
      using Cons.prems(2) by (auto split: sum.splits)
    from analyze_literal_inv[OF Cons.prems(1) a] r show ?thesis by (rule Cons.IH)
  next
    case False
    then show ?thesis using Cons by simp
  qed
qed

lemma save_as_resolved_clause_new:
  "scratch_frame s (save_as_resolved_clause c s)"
  "clause (save_as_resolved_clause c s) = clause s"
  "levels (save_as_resolved_clause c s) = levels s"
  "control (save_as_resolved_clause c s) = control s"
  "ftab (save_as_resolved_clause c s) = ftab s"
  "analyzed (save_as_resolved_clause c s) = analyzed s"
  "resolved (save_as_resolved_clause c s) =
     (if redundant (clauses s c) \<and> have_analyzed (clauses s c) then resolved s @ [c] else resolved s)"
  "clauses (save_as_resolved_clause c s) =
     (if redundant (clauses s c) \<and> hbr (clauses s c)
      then (clauses s)(c := (clauses s c)\<lparr>used := True\<rparr>) else clauses s)"
proof -
  show "scratch_frame s (save_as_resolved_clause c s)"
    unfolding scratch_frame_def
    by (rule exI[of _ "clause s"], rule exI[of _ "levels s"], rule exI[of _ "control s"],
      rule exI[of _ "ftab s"], rule exI[of _ "analyzed s"],
      rule exI[of _ "resolved (save_as_resolved_clause c s)"],
      rule exI[of _ "clauses (save_as_resolved_clause c s)"])
      (simp add: save_as_resolved_clause_def Let_def)
qed (simp_all add: save_as_resolved_clause_def Let_def)

lemma save_as_resolved_clause_inv:
  assumes inv: "walk_inv s0 s"
  shows "walk_inv s0 (save_as_resolved_clause c s)"
proof -
  let ?t = "save_as_resolved_clause c s"
  note n = save_as_resolved_clause_new[where s = s and c = c]
  have fr: "scratch_frame s0 s" using inv by (simp add: walk_inv_def)
  have cl: "\<forall>d. clauses s d = clauses s0 d \<or> clauses s d = (clauses s0 d)\<lparr>used := True\<rparr>"
    using inv by (simp add: walk_inv_def)
  have 1: "scratch_frame s0 ?t" using fr n(1) by (rule scratch_frame_trans)
  have 2: "\<forall>d. clauses ?t d = clauses s0 d \<or> clauses ?t d = (clauses s0 d)\<lparr>used := True\<rparr>"
  proof
    fix d
    have "clauses s d = clauses s0 d \<or> clauses s d = (clauses s0 d)\<lparr>used := True\<rparr>"
      using cl by blast
    then show "clauses ?t d = clauses s0 d \<or> clauses ?t d = (clauses s0 d)\<lparr>used := True\<rparr>"
      unfolding n(8) by auto
  qed
  have ha: "have_analyzed (clauses s c) = have_analyzed (clauses s0 c)"
    using cl[rule_format, of c] by auto
  have 7: "\<forall>d \<in> set (resolved ?t). have_analyzed (clauses s0 d)"
    using inv ha unfolding walk_inv_def n(7) by auto
  show ?thesis unfolding walk_inv_def n(2,3,4,5,6)
    using 1 2 7 inv unfolding walk_inv_def by blast
qed

lemma analyze_reason_inv:
  "walk_inv s0 s \<Longrightarrow> analyze_reason lit c (s, opn) = Inr (t, opn1) \<Longrightarrow> walk_inv s0 t"
  unfolding analyze_reason_def
  by (simp add: Let_def) (erule analyze_literals_inv[OF save_as_resolved_clause_inv])

lemma find_seen_found:
  "find_seen s i = Some (j, uip) \<Longrightarrow>
   j < i \<and> uip = trail s ! j \<and> seen (flags s uip) \<and>
   (\<forall>k. j < k \<and> k < i \<longrightarrow> \<not> seen (flags s (trail s ! k)))"
proof (induction i)
  case 0
  then show ?case by simp
next
  case (Suc i)
  show ?case
  proof (cases "seen (flags s (trail s ! i))")
    case True
    then show ?thesis using Suc.prems by (auto simp: Let_def)
  next
    case False
    then have "find_seen s i = Some (j, uip)" using Suc.prems by (simp add: Let_def)
    from Suc.IH[OF this] False show ?thesis by (auto simp: less_Suc_eq)
  qed
qed

lemma walk_unfold:
  assumes "walk s reason uip opn i = Inr (t, u)"
  shows "\<exists>s1 opn1 j uip1.
           (case reason of Some r \<Rightarrow> analyze_reason uip r (s, opn)
                         | None \<Rightarrow> analyze_literal 0 (s, opn)) = Inr (s1, opn1) \<and>
           find_seen s1 i = Some (j, uip1) \<and>
           (if opn1 - 1 = 0 then t = s1 \<and> u = uip1
            else walk s1 (v_reason (var s1 uip1)) uip1 (opn1 - 1) j = Inr (t, u))"
proof -
  let ?a = "(case reason of Some r \<Rightarrow> analyze_reason uip r (s, opn)
                         | None \<Rightarrow> analyze_literal 0 (s, opn))"
  have w: "walk s reason uip opn i =
     (case ?a of
        Inl e \<Rightarrow> Inl e
      | Inr (s1, opn1) \<Rightarrow>
          (case find_seen s1 i of
             None \<Rightarrow> Inl TrailUnderflow
           | Some (j, uip1) \<Rightarrow>
               if opn1 - 1 = 0 then Inr (s1, uip1)
               else walk s1 (v_reason (var s1 uip1)) uip1 (opn1 - 1) j))"
    by (subst walk.simps) (simp add: Let_def)
  obtain s1 opn1 where a: "?a = Inr (s1, opn1)"
    using assms unfolding w by (cases ?a) auto
  have r: "(case find_seen s1 i of
             None \<Rightarrow> Inl TrailUnderflow
           | Some (j, uip1) \<Rightarrow>
               if opn1 - 1 = 0 then Inr (s1, uip1)
               else walk s1 (v_reason (var s1 uip1)) uip1 (opn1 - 1) j) = Inr (t, u)"
    using assms unfolding w a by simp
  obtain j uip1 where f: "find_seen s1 i = Some (j, uip1)"
    using r by (cases "find_seen s1 i") auto
  have "if opn1 - 1 = 0 then t = s1 \<and> u = uip1
        else walk s1 (v_reason (var s1 uip1)) uip1 (opn1 - 1) j = Inr (t, u)"
    using r unfolding f by (simp split: if_splits)
  with a f show ?thesis by blast
qed

lemma walk_inv_walk:
  "walk s reason uip opn i = Inr (t, u) \<Longrightarrow> walk_inv s0 s \<Longrightarrow>
   walk_inv s0 t \<and> seen (flags t u) \<and> (\<exists>j < i. u = trail s0 ! j)"
proof (induction s reason uip opn i rule: walk.induct)
  case (1 s reason uip opn i)
  from walk_unfold[OF "1.prems"(1)] obtain s1 opn1 j uip1 where
    a: "(case reason of Some r \<Rightarrow> analyze_reason uip r (s, opn)
                      | None \<Rightarrow> analyze_literal 0 (s, opn)) = Inr (s1, opn1)"
    and f: "find_seen s1 i = Some (j, uip1)"
    and w: "if opn1 - 1 = 0 then t = s1 \<and> u = uip1
            else walk s1 (v_reason (var s1 uip1)) uip1 (opn1 - 1) j = Inr (t, u)"
    by blast
  have inv1: "walk_inv s0 s1"
    using a "1.prems"(2) by (cases reason) (auto intro: analyze_reason_inv analyze_literal_inv)
  have tr: "trail s1 = trail s0" using inv1 scratch_frame_fields(2) by (simp add: walk_inv_def)
  note ff = find_seen_found[OF f]
  show ?case
  proof (cases "opn1 - 1 = 0")
    case True
    then show ?thesis using w inv1 ff tr by auto
  next
    case False
    then have w': "walk s1 (v_reason (var s1 uip1)) uip1 (opn1 - 1) j = Inr (t, u)" using w by simp
    have "walk_inv s0 t \<and> seen (flags t u) \<and> (\<exists>k < j. u = trail s0 ! k)"
      using "1.IH"[OF refl a refl f refl False w' inv1] .
    then obtain k where "walk_inv s0 t" "seen (flags t u)" "k < j" "u = trail s0 ! k" by blast
    moreover have "j < i" using ff by simp
    ultimately show ?thesis using less_trans[of k j i] by blast
  qed
qed

lemma stats_frame_refl: "stats_frame s s"
  unfolding stats_frame_def
  by (rule exI[of _ "clause s"], rule exI[of _ "analyzed s"], rule exI[of _ "resolved s"],
      rule exI[of _ "clauses s"], rule exI[of _ "stats s"], rule exI[of _ "fast_glue_avg s"],
      rule exI[of _ "slow_glue_avg s"], rule exI[of _ "size_avg s"], rule exI[of _ "ltab s"],
      rule exI[of _ "queue s"], rule exI[of _ "btab s"]) simp

lemma stats_frame_trans: "stats_frame s t \<Longrightarrow> stats_frame t u \<Longrightarrow> stats_frame s u"
  unfolding stats_frame_def
  by (elim exE) (simp, blast)

lemma stats_frame_fields:
  assumes "stats_frame s0 s"
  shows "level s = level s0" "trail s = trail s0" "vals s = vals s0" "vtab s = vtab s0"
    "conflict s = conflict s0" "opts s = opts s0" "num_clauses s = num_clauses s0"
    "unsat s = unsat s0" "iterating s = iterating s0" "proof_log s = proof_log s0"
    "jump_avg s = jump_avg s0" "ftab s = ftab s0" "levels s = levels s0"
    "control s = control s0" "var s = var s0" "val s = val s0" "flags s = flags s0"
  using assms unfolding stats_frame_def by (auto simp: var_def val_def flags_def fun_eq_iff)

lemma stats_frameI:
  "t = s\<lparr>clause := cl, analyzed := an, resolved := rs, clauses := cs, stats := st,
         fast_glue_avg := fa, slow_glue_avg := sa, size_avg := za,
         ltab := lt, queue := q, btab := bt\<rparr> \<Longrightarrow> stats_frame s t"
  unfolding stats_frame_def by blast

lemma bump_clauses_have_analyzed:
  "bump_clauses cs s = Inr t \<Longrightarrow> \<forall>c \<in> set cs. have_analyzed (clauses s c)"
proof (induction cs arbitrary: s)
  case Nil
  then show ?case by simp
next
  case (Cons x rest)
  have h: "have_analyzed (clauses s x)"
    using Cons.prems by (auto simp: bump_clause_def split: if_splits)
  then have "bump_clauses rest
      (s\<lparr>stats := (stats s)\<lparr>stats_analyzed := stats_analyzed (stats s) + 1\<rparr>,
         clauses := (clauses s)(x := (clauses s x)\<lparr>c_analyzed := stats_analyzed (stats s) + 1\<rparr>)\<rparr>) = Inr t"
    using Cons.prems by (simp add: bump_clause_ok)
  from Cons.IH[OF this] h show ?case by (auto split: if_splits)
qed

lemma bump_resolved_clauses_result:
  assumes "\<forall>c \<in> set (resolved s). have_analyzed (clauses s c)"
  shows "\<exists>cl. bump_resolved_clauses s =
           Inr (s\<lparr>resolved := [],
                  stats := (stats s)\<lparr>stats_analyzed :=
                    stats_analyzed (stats s) + int (length (resolved s))\<rparr>,
                  clauses := cl\<rparr>) \<and>
           (\<forall>i < length (resolved s).
              sort_by (analyzed_earlier s) (resolved s) ! i
                \<notin> set (drop (Suc i) (sort_by (analyzed_earlier s) (resolved s))) \<longrightarrow>
              cl (sort_by (analyzed_earlier s) (resolved s) ! i) =
                (clauses s (sort_by (analyzed_earlier s) (resolved s) ! i))
                  \<lparr>c_analyzed := stats_analyzed (stats s) + 1 + int i\<rparr>) \<and>
           (\<forall>c. c \<notin> set (resolved s) \<longrightarrow> cl c = clauses s c)"
proof -
  let ?xs = "sort_by (analyzed_earlier s) (resolved s)"
  let ?s1 = "s\<lparr>resolved := ?xs\<rparr>"
  have "\<forall>c \<in> set ?xs. have_analyzed (clauses ?s1 c)" using assms by simp
  from bump_clauses_result[OF this] obtain cl where
    b: "bump_clauses ?xs ?s1 =
          Inr (?s1\<lparr>stats := (stats ?s1)\<lparr>stats_analyzed := stats_analyzed (stats ?s1) + int (length ?xs)\<rparr>,
                   clauses := cl\<rparr>)"
    and n: "\<forall>i < length ?xs. ?xs ! i \<notin> set (drop (Suc i) ?xs) \<longrightarrow>
              cl (?xs ! i) = (clauses ?s1 (?xs ! i))\<lparr>c_analyzed := stats_analyzed (stats ?s1) + 1 + int i\<rparr>"
    and o: "\<forall>c. c \<notin> set ?xs \<longrightarrow> cl c = clauses ?s1 c"
    by blast
  have 1: "bump_resolved_clauses s =
           Inr (s\<lparr>resolved := [],
                  stats := (stats s)\<lparr>stats_analyzed :=
                    stats_analyzed (stats s) + int (length (resolved s))\<rparr>,
                  clauses := cl\<rparr>)"
    unfolding bump_resolved_clauses_def Let_def using b by simp
  show ?thesis using 1 n o by (intro exI[of _ cl]) simp
qed

lemma bump_resolved_clauses_frame:
  assumes "bump_resolved_clauses s = Inr t"
  shows "stats_frame s t" "resolved t = []" "analyzed t = analyzed s" "clause t = clause s"
    "btab t = btab s" "ltab t = ltab s" "queue t = queue s"
    "stats_bumped (stats t) = stats_bumped (stats s)"
    "stats_bumplast (stats t) = stats_bumplast (stats s)"
    "stats_fixed (stats t) = stats_fixed (stats s)"
    "stats_analyzed (stats t) = stats_analyzed (stats s) + int (length (resolved s))"
proof -
  obtain u where u: "bump_clauses (sort_by (analyzed_earlier s) (resolved s))
                       (s\<lparr>resolved := sort_by (analyzed_earlier s) (resolved s)\<rparr>) = Inr u"
    using assms unfolding bump_resolved_clauses_def Let_def by (auto split: sum.splits)
  have "\<forall>c \<in> set (resolved s). have_analyzed (clauses s c)"
    using bump_clauses_have_analyzed[OF u] by simp
  from bump_resolved_clauses_result[OF this] assms obtain cl where
    t: "t = s\<lparr>resolved := [],
              stats := (stats s)\<lparr>stats_analyzed :=
                stats_analyzed (stats s) + int (length (resolved s))\<rparr>,
              clauses := cl\<rparr>"
    by auto
  show "stats_frame s t"
    by (rule stats_frameI[where cl = "clause s" and an = "analyzed s" and fa = "fast_glue_avg s"
          and sa = "slow_glue_avg s" and za = "size_avg s" and lt = "ltab s" and q = "queue s"
          and bt = "btab s" and rs = "[]" and cs = cl
          and st = "(stats s)\<lparr>stats_analyzed := stats_analyzed (stats s) + int (length (resolved s))\<rparr>"])
       (simp add: t)
  show "resolved t = []" "analyzed t = analyzed s" "clause t = clause s"
    "btab t = btab s" "ltab t = ltab s" "queue t = queue s"
    "stats_bumped (stats t) = stats_bumped (stats s)"
    "stats_bumplast (stats t) = stats_bumplast (stats s)"
    "stats_fixed (stats t) = stats_fixed (stats s)"
    "stats_analyzed (stats t) = stats_analyzed (stats s) + int (length (resolved s))"
    by (simp_all add: t)
qed

lemma update_statistics_frame:
  assumes "update_statistics minimize_clause s = (t, g, sz)"
  shows "stats_frame s t" "g = int (length (levels s))" "sz = int (length (clause t))"
    "analyzed t = analyzed s" "resolved t = resolved s" "clauses t = clauses s"
    "btab t = btab s" "ltab t = ltab s" "queue t = queue s"
    "stats_bumped (stats t) = stats_bumped (stats s)"
    "stats_bumplast (stats t) = stats_bumplast (stats s)"
    "stats_fixed (stats t) = stats_fixed (stats s)"
    "stats_analyzed (stats t) = stats_analyzed (stats s)"
proof -
  have t: "t = fst (update_statistics minimize_clause s)"
    and g: "g = fst (snd (update_statistics minimize_clause s))"
    and z: "sz = snd (snd (update_statistics minimize_clause s))"
    using assms by simp_all
  show "stats_frame s t"
    by (rule stats_frameI[where cl = "clause t" and an = "analyzed s" and fa = "fast_glue_avg t"
          and sa = "slow_glue_avg t" and za = "size_avg t" and lt = "ltab s" and q = "queue s"
          and bt = "btab s" and rs = "resolved s" and cs = "clauses s" and st = "stats t"])
       (simp add: t update_statistics_def Let_def)
  show "g = int (length (levels s))" by (simp add: g update_statistics_def Let_def)
  show "sz = int (length (clause t))" by (simp add: t z update_statistics_def Let_def)
  show "analyzed t = analyzed s" "resolved t = resolved s" "clauses t = clauses s"
    "btab t = btab s" "ltab t = ltab s" "queue t = queue s"
    "stats_bumped (stats t) = stats_bumped (stats s)"
    "stats_bumplast (stats t) = stats_bumplast (stats s)"
    "stats_fixed (stats t) = stats_fixed (stats s)"
    "stats_analyzed (stats t) = stats_analyzed (stats s)"
    by (simp_all add: t update_statistics_def Let_def)
qed

lemma queue_frame_refl: "queue_frame s s"
  unfolding queue_frame_def
  by (rule exI[of _ "ltab s"], rule exI[of _ "queue s"], rule exI[of _ "btab s"],
      rule exI[of _ "stats_bumped (stats s)"], rule exI[of _ "stats_bumplast (stats s)"]) simp

lemma queue_frame_trans: "queue_frame s t \<Longrightarrow> queue_frame t u \<Longrightarrow> queue_frame s u"
  unfolding queue_frame_def
  by (elim exE) (simp, blast)

lemma bump_variable_frame: "queue_frame s (bump_variable lit s)"
proof (cases "next (ltab s (vidx lit)) = 0")
  case True
  then show ?thesis by (simp add: bump_variable_def queue_frame_refl)
next
  case False
  show ?thesis unfolding queue_frame_def
    by (rule exI[of _ "ltab (bump_variable lit s)"], rule exI[of _ "queue (bump_variable lit s)"],
        rule exI[of _ "btab (bump_variable lit s)"],
        rule exI[of _ "stats_bumped (stats (bump_variable lit s))"],
        rule exI[of _ "stats_bumplast (stats (bump_variable lit s))"])
       (simp add: bump_variable_def Let_def update_queue_unassigned_def False split: prod.splits)
qed

lemma fold_bump_variable_frame: "queue_frame s (fold bump_variable xs s)"
proof (induction xs arbitrary: s)
  case Nil
  show ?case by (simp add: queue_frame_refl)
next
  case (Cons x xs)
  show ?case using queue_frame_trans[OF bump_variable_frame Cons] by simp
qed

lemma queue_frame_stats_frame: "queue_frame s t \<Longrightarrow> stats_frame s t"
  unfolding queue_frame_def
  by (elim exE, rule stats_frameI[where cl = "clause s" and an = "analyzed s"
        and fa = "fast_glue_avg s" and sa = "slow_glue_avg s" and za = "size_avg s"
        and lt = "ltab t" and q = "queue t" and bt = "btab t" and rs = "resolved s"
        and cs = "clauses s" and st = "stats t"]) simp

lemma queue_frame_fields:
  assumes "queue_frame s t"
  shows "analyzed t = analyzed s" "clause t = clause s" "resolved t = resolved s"
    "clauses t = clauses s" "stats_analyzed (stats t) = stats_analyzed (stats s)"
    "stats_fixed (stats t) = stats_fixed (stats s)"
  using assms unfolding queue_frame_def by auto

lemma bump_variables_frame:
  "stats_frame s (bump_variables s)" "mset (analyzed (bump_variables s)) = mset (analyzed s)"
  "clause (bump_variables s) = clause s" "resolved (bump_variables s) = resolved s"
  "clauses (bump_variables s) = clauses s"
  "stats_analyzed (stats (bump_variables s)) = stats_analyzed (stats s)"
  "stats_fixed (stats (bump_variables s)) = stats_fixed (stats s)"
proof -
  let ?xs = "sort_by (if use_trail_bump s then trail_bumped_smaller s else bumped_earlier s) (analyzed s)"
  let ?s1 = "s\<lparr>analyzed := ?xs,
          stats := (stats s)\<lparr>stats_trailbumped :=
            stats_trailbumped (stats s) + (if use_trail_bump s then 1 else 0)\<rparr>\<rparr>"
  have b: "bump_variables s = fold bump_variable ?xs ?s1"
    by (simp add: bump_variables_def)
  have q: "queue_frame ?s1 (bump_variables s)" unfolding b by (rule fold_bump_variable_frame)
  have f1: "stats_frame s ?s1"
    by (rule stats_frameI[where cl = "clause s" and an = ?xs
        and fa = "fast_glue_avg s" and sa = "slow_glue_avg s" and za = "size_avg s"
        and lt = "ltab s" and q = "queue s" and bt = "btab s" and rs = "resolved s"
        and cs = "clauses s" and st = "stats ?s1"]) simp
  show "stats_frame s (bump_variables s)"
    using stats_frame_trans[OF f1 queue_frame_stats_frame[OF q]] .
  note qf = queue_frame_fields[OF q]
  show "mset (analyzed (bump_variables s)) = mset (analyzed s)" using qf(1) by simp
  show "clause (bump_variables s) = clause s" using qf(2) by simp
  show "resolved (bump_variables s) = resolved s" using qf(3) by simp
  show "clauses (bump_variables s) = clauses s" using qf(4) by simp
  show "stats_analyzed (stats (bump_variables s)) = stats_analyzed (stats s)" using qf(5) by simp
  show "stats_fixed (stats (bump_variables s)) = stats_fixed (stats s)" using qf(6) by simp
qed

lemma first_uip_clause_walk:
  assumes c: "scratch_clean s" and f: "first_uip_clause s = Inr (s1, uip)"
  shows "\<exists>sw. walk s (conflict s) 0 0 (length (trail s)) = Inr (sw, uip) \<and> walk_inv s sw \<and>
              seen (flags sw uip) \<and> (\<exists>j < length (trail s). uip = trail s ! j) \<and>
              s1 = sw\<lparr>clause := clause sw @ [- uip]\<rparr>"
proof -
  obtain sw where w: "walk s (conflict s) 0 0 (length (trail s)) = Inr (sw, uip)"
    and s1: "s1 = sw\<lparr>clause := clause sw @ [- uip]\<rparr>"
    using f unfolding first_uip_clause_def by (auto split: sum.splits)
  from walk_inv_walk[OF w walk_inv_start[OF c]] w s1 show ?thesis by blast
qed

lemma analyze_prefix_chain:
  assumes "analyze_prefix minimize_clause s = Inr (s4, uip, g, sz)"
  shows "\<exists>s1 s3 s4'. first_uip_clause s = Inr (s1, uip) \<and> check_learned_clause s1 = Inr s1 \<and>
           bump_resolved_clauses s1 = Inr s3 \<and>
           update_statistics minimize_clause s3 = (s4', g, sz) \<and> s4 = bump_variables s4'"
proof -
  obtain s1 u where 1: "first_uip_clause s = Inr (s1, u)"
    using assms unfolding analyze_prefix_def by (cases "first_uip_clause s") auto
  have 2: "check_learned_clause s1 = Inr s1"
    using assms unfolding analyze_prefix_def 1
    by (cases "check_learned_clause s1") (auto simp: check_learned_clause_def split: if_splits)
  obtain s3 where 3: "bump_resolved_clauses s1 = Inr s3"
    using assms unfolding analyze_prefix_def 1 by (simp add: 2) (cases "bump_resolved_clauses s1", auto)
  obtain s4' g' sz' where 4: "update_statistics minimize_clause s3 = (s4', g', sz')"
    by (cases "update_statistics minimize_clause s3") auto
  have "Inr (bump_variables s4', u, g', sz') = (Inr (s4, uip, g, sz) :: error + Internal \<times> int \<times> int \<times> int)"
    using assms unfolding analyze_prefix_def 1 by (simp add: 2 3 4)
  then have "s4 = bump_variables s4'" "u = uip" "g' = g" "sz' = sz" by simp_all
  then show ?thesis using 1 2 3 4 by blast
qed

lemma analyze_prefix_facts:
  assumes c: "scratch_clean s" and p: "analyze_prefix minimize_clause s = Inr (s4, uip, g, sz)"
  shows "\<forall>idx. ftab s4 idx = (ftab s idx)\<lparr>seen := idx \<in> vidx ` set (analyzed s4)\<rparr>"
    "distinct (map vidx (analyzed s4))"
    "\<forall>l. l \<notin> set (levels s4) \<longrightarrow> control s4 l = control s l"
proof -
  from analyze_prefix_chain[OF p] obtain s1 s3 s4' where
    1: "first_uip_clause s = Inr (s1, uip)" and 3: "bump_resolved_clauses s1 = Inr s3"
    and 4: "update_statistics minimize_clause s3 = (s4', g, sz)" and 5: "s4 = bump_variables s4'"
    by blast
  from first_uip_clause_walk[OF c 1] obtain sw where
    inv: "walk_inv s sw" and s1: "s1 = sw\<lparr>clause := clause sw @ [- uip]\<rparr>"
    by blast
  note f3 = bump_resolved_clauses_frame[OF 3]
  note f4 = update_statistics_frame[OF 4]
  note f5 = bump_variables_frame[of s4']
  have fr: "stats_frame s1 s4"
    unfolding 5 using stats_frame_trans[OF stats_frame_trans[OF f3(1) f4(1)] f5(1)] .
  note ff = stats_frame_fields[OF fr]
  have an: "mset (analyzed s4) = mset (analyzed sw)"
    unfolding 5 using f5(2) f4(4) f3(3) by (simp add: s1)
  then have st: "set (analyzed s4) = set (analyzed sw)" by (rule mset_eq_setD)
  have "ftab s4 = ftab sw" using ff(12) by (simp add: s1)
  then show "\<forall>idx. ftab s4 idx = (ftab s idx)\<lparr>seen := idx \<in> vidx ` set (analyzed s4)\<rparr>"
    using inv st unfolding walk_inv_def by simp
  have "mset (map vidx (analyzed s4)) = mset (map vidx (analyzed sw))" using an by simp
  then show "distinct (map vidx (analyzed s4))"
    using inv mset_eq_imp_distinct_iff unfolding walk_inv_def by blast
  have "levels s4 = levels sw" "control s4 = control sw" using ff(13,14) by (simp_all add: s1)
  then show "\<forall>l. l \<notin> set (levels s4) \<longrightarrow> control s4 l = control s l"
    using inv unfolding walk_inv_def by simp
qed

lemma backjump_driving:
  assumes "sz > 1"
  shows "backjump uip g sz s =
     Inr (s\<lparr>clause := sort_by (trail_larger s) (clause s),
            clauses := (clauses s)(num_clauses s :=
               \<lparr>literals = sort_by (trail_larger s) (clause s), redundant = True, hbr = False,
                used = False, have_analyzed = False, c_analyzed = 0, glue = g\<rparr>),
            num_clauses := num_clauses s + 1,
            jump_avg := jump_avg s @ [int (v_level (var s (sort_by (trail_larger s) (clause s) ! 1)))],
            trail := takeWhile (\<lambda>lit. v_level (var s lit)
                        \<le> v_level (var s (sort_by (trail_larger s) (clause s) ! 1))) (trail s) @ [- uip],
            vals := (\<lambda>idx. if idx \<in> vidx ` set (drop (length (takeWhile (\<lambda>lit. v_level (var s lit)
                        \<le> v_level (var s (sort_by (trail_larger s) (clause s) ! 1))) (trail s))) (trail s))
                      then 0 else vals s idx)(vidx (- uip) := (if - uip < 0 then - 1 else 1)),
            control := (\<lambda>l. if l > v_level (var s (sort_by (trail_larger s) (clause s) ! 1))
                             then level_reset else control s l),
            level := v_level (var s (sort_by (trail_larger s) (clause s) ! 1)),
            vtab := (vtab s)(vidx (- uip) :=
               \<lparr>v_level = v_level (var s (sort_by (trail_larger s) (clause s) ! 1)),
                v_trail = length (takeWhile (\<lambda>lit. v_level (var s lit)
                        \<le> v_level (var s (sort_by (trail_larger s) (clause s) ! 1))) (trail s)),
                v_reason = Some (num_clauses s)\<rparr>)\<rparr>)"
  using assms
  by (simp add: backjump_def Let_def new_learned_redundant_clause_def backtrack_def
      assign_driving_def assign_def var_def cong: if_cong)

lemma backjump_unit:
  assumes "\<not> sz > 1"
  shows "backjump uip g sz s =
     (if \<not> active (flags s (- uip)) then Inl AssertionFailed
      else Inr (s\<lparr>iterating := True,
            jump_avg := jump_avg s @ [0],
            trail := takeWhile (\<lambda>lit. v_level (var s lit) \<le> 0) (trail s) @ [- uip],
            vals := (\<lambda>idx. if idx \<in> vidx ` set (drop (length (takeWhile (\<lambda>lit. v_level (var s lit)
                        \<le> 0) (trail s))) (trail s))
                      then 0 else vals s idx)(vidx (- uip) := (if - uip < 0 then - 1 else 1)),
            control := (\<lambda>l. if l > 0 then level_reset else control s l),
            level := 0,
            vtab := (vtab s)(vidx (- uip) :=
               \<lparr>v_level = 0,
                v_trail = length (takeWhile (\<lambda>lit. v_level (var s lit) \<le> 0) (trail s)),
                v_reason = None\<rparr>),
            proof_log := map_option (trace_unit_clause (- uip)) (proof_log s),
            ftab := (ftab s)(vidx (- uip) := (ftab s (vidx (- uip)))\<lparr>status := FIXED\<rparr>),
            stats := (stats s)\<lparr>stats_fixed := stats_fixed (stats s) + 1\<rparr>\<rparr>))"
  using assms
  by (simp add: backjump_def Let_def backtrack_def assign_unit_def learn_unit_clause_def
      assign_def var_def flags_def cong: if_cong)

lemma clear_seen_flags_result:
  "clear_seen_flags ls s = Inr t \<Longrightarrow>
   (\<exists>ft. t = s\<lparr>ftab := ft\<rparr>) \<and>
   (\<forall>idx. ftab t idx = (if idx \<in> vidx ` set ls then (ftab s idx)\<lparr>seen := False\<rparr> else ftab s idx)) \<and>
   (\<forall>lit \<in> set ls. seen (flags s lit) \<and> \<not> keep (flags s lit) \<and> \<not> poison (flags s lit) \<and>
      \<not> removable (flags s lit)) \<and>
   distinct (map vidx ls)"
proof (induction ls arbitrary: s)
  case Nil
  then show ?case by (auto intro: exI[of _ "ftab s"])
next
  case (Cons lit rest)
  let ?f = "flags s lit"
  let ?s1 = "s\<lparr>ftab := (ftab s)(vidx lit := ?f\<lparr>seen := False\<rparr>)\<rparr>"
  have a: "seen ?f" "\<not> keep ?f" "\<not> poison ?f" "\<not> removable ?f"
    and r: "clear_seen_flags rest ?s1 = Inr t"
    using Cons.prems by (auto simp: Let_def split: if_splits)
  from Cons.IH[OF r] obtain ft where
    t: "t = ?s1\<lparr>ftab := ft\<rparr>"
    and f: "\<forall>idx. ftab t idx = (if idx \<in> vidx ` set rest then (ftab ?s1 idx)\<lparr>seen := False\<rparr>
                               else ftab ?s1 idx)"
    and g: "\<forall>l \<in> set rest. seen (flags ?s1 l) \<and> \<not> keep (flags ?s1 l) \<and> \<not> poison (flags ?s1 l) \<and>
              \<not> removable (flags ?s1 l)"
    and d: "distinct (map vidx rest)"
    by blast
  have n: "vidx l \<noteq> vidx lit" if "l \<in> set rest" for l
    using g that by (auto simp: flags_def)
  have 1: "\<exists>ft. t = s\<lparr>ftab := ft\<rparr>" using t by (intro exI[of _ ft]) simp
  have 2: "\<forall>idx. ftab t idx = (if idx \<in> vidx ` set (lit # rest) then (ftab s idx)\<lparr>seen := False\<rparr>
                               else ftab s idx)"
    using f by (auto simp: flags_def)
  have 3: "\<forall>l \<in> set (lit # rest). seen (flags s l) \<and> \<not> keep (flags s l) \<and> \<not> poison (flags s l) \<and>
              \<not> removable (flags s l)"
    using a g n by (auto simp: flags_def split: if_splits)
  have "vidx lit \<notin> vidx ` set rest" using n by force
  then have 4: "distinct (map vidx (lit # rest))" using d by simp
  show ?case using 1 2 3 4 by blast
qed

lemma clear_seen_flags_total:
  "distinct (map vidx ls) \<Longrightarrow>
   \<forall>lit \<in> set ls. seen (flags s lit) \<and> \<not> keep (flags s lit) \<and> \<not> poison (flags s lit) \<and>
      \<not> removable (flags s lit) \<Longrightarrow>
   \<exists>t. clear_seen_flags ls s = Inr t"
proof (induction ls arbitrary: s)
  case Nil
  then show ?case by simp
next
  case (Cons lit rest)
  let ?s1 = "s\<lparr>ftab := (ftab s)(vidx lit := (flags s lit)\<lparr>seen := False\<rparr>)\<rparr>"
  have "\<forall>l \<in> set rest. seen (flags ?s1 l) \<and> \<not> keep (flags ?s1 l) \<and> \<not> poison (flags ?s1 l) \<and>
      \<not> removable (flags ?s1 l)"
  proof
    fix l assume l: "l \<in> set rest"
    have "vidx lit \<notin> vidx ` set rest" using Cons.prems(1) by simp
    then have "vidx l \<noteq> vidx lit" using l by (metis imageI)
    then show "seen (flags ?s1 l) \<and> \<not> keep (flags ?s1 l) \<and> \<not> poison (flags ?s1 l) \<and>
      \<not> removable (flags ?s1 l)"
      using Cons.prems(2) l by (simp add: flags_def)
  qed
  moreover have "distinct (map vidx rest)" using Cons.prems by simp
  ultimately obtain t where "clear_seen_flags rest ?s1 = Inr t" using Cons.IH by blast
  then show ?case using Cons.prems(2) by (simp add: Let_def)
qed

lemma clear_levels_fold:
  "(\<exists>co. fold (\<lambda>l t. t\<lparr>control := (control t)(l := level_reset)\<rparr>) ls s = s\<lparr>control := co\<rparr>) \<and>
   control (fold (\<lambda>l t. t\<lparr>control := (control t)(l := level_reset)\<rparr>) ls s) =
     (\<lambda>l. if l \<in> set ls then level_reset else control s l)"
proof (induction ls arbitrary: s)
  case Nil
  show ?case by (auto intro: exI[of _ "control s"])
next
  case (Cons x xs)
  let ?s1 = "s\<lparr>control := (control s)(x := level_reset)\<rparr>"
  from Cons[of ?s1] obtain co where
    1: "fold (\<lambda>l t. t\<lparr>control := (control t)(l := level_reset)\<rparr>) xs ?s1 = ?s1\<lparr>control := co\<rparr>"
    and 2: "control (fold (\<lambda>l t. t\<lparr>control := (control t)(l := level_reset)\<rparr>) xs ?s1) =
     (\<lambda>l. if l \<in> set xs then level_reset else control ?s1 l)"
    by blast
  have "fold (\<lambda>l t. t\<lparr>control := (control t)(l := level_reset)\<rparr>) (x # xs) s = s\<lparr>control := co\<rparr>"
    using 1 by simp
  moreover have "control (fold (\<lambda>l t. t\<lparr>control := (control t)(l := level_reset)\<rparr>) (x # xs) s) =
     (\<lambda>l. if l \<in> set (x # xs) then level_reset else control s l)"
    using 2 by (auto simp: fun_eq_iff)
  ultimately show ?case by blast
qed

lemma cleanup_result:
  assumes "cleanup s = Inr t"
  shows "(\<exists>ft co. t = s\<lparr>ftab := ft, analyzed := [], clause := [], control := co, levels := [],
                        conflict := None\<rparr>) \<and>
         (\<forall>idx. ftab t idx = (if idx \<in> vidx ` set (analyzed s) then (ftab s idx)\<lparr>seen := False\<rparr>
                              else ftab s idx)) \<and>
         control t = (\<lambda>l. if l \<in> set (levels s) then level_reset else control s l) \<and>
         (\<forall>lit \<in> set (analyzed s). seen (flags s lit) \<and> \<not> keep (flags s lit) \<and>
            \<not> poison (flags s lit) \<and> \<not> removable (flags s lit))"
proof -
  obtain s1 where c: "clear_seen_flags (analyzed s) s = Inr s1"
    using assms unfolding cleanup_def clear_seen_def
    by (cases "clear_seen_flags (analyzed s) s") auto
  from clear_seen_flags_result[OF c] obtain ft where
    s1: "s1 = s\<lparr>ftab := ft\<rparr>"
    and f: "\<forall>idx. ftab s1 idx = (if idx \<in> vidx ` set (analyzed s) then (ftab s idx)\<lparr>seen := False\<rparr>
                                else ftab s idx)"
    and g: "\<forall>lit \<in> set (analyzed s). seen (flags s lit) \<and> \<not> keep (flags s lit) \<and>
            \<not> poison (flags s lit) \<and> \<not> removable (flags s lit)"
    by blast
  let ?s2 = "s1\<lparr>analyzed := [], clause := []\<rparr>"
  from clear_levels_fold[of "levels ?s2" ?s2] obtain co where
    l1: "fold (\<lambda>l t. t\<lparr>control := (control t)(l := level_reset)\<rparr>) (levels ?s2) ?s2 = ?s2\<lparr>control := co\<rparr>"
    and l2: "control (fold (\<lambda>l t. t\<lparr>control := (control t)(l := level_reset)\<rparr>) (levels ?s2) ?s2) =
     (\<lambda>l. if l \<in> set (levels ?s2) then level_reset else control ?s2 l)"
    by blast
  have t: "t = ?s2\<lparr>control := co, levels := [], conflict := None\<rparr>"
    using assms l1 unfolding cleanup_def clear_seen_def clear_levels_def by (simp add: c)
  have co: "co = (\<lambda>l. if l \<in> set (levels s) then level_reset else control s l)"
    using l2 unfolding l1 by (simp add: s1 cong: if_cong)
  have 1: "\<exists>ft co. t = s\<lparr>ftab := ft, analyzed := [], clause := [], control := co, levels := [],
                        conflict := None\<rparr>"
    by (rule exI[of _ ft], rule exI[of _ co]) (simp add: t s1)
  have 2: "\<forall>idx. ftab t idx = (if idx \<in> vidx ` set (analyzed s) then (ftab s idx)\<lparr>seen := False\<rparr>
                              else ftab s idx)"
    using f by (simp add: t)
  have 3: "control t = (\<lambda>l. if l \<in> set (levels s) then level_reset else control s l)"
    using co by (simp add: t)
  show ?thesis using 1 2 3 g by blast
qed

lemma cleanup_fields:
  assumes "cleanup s = Inr t"
  shows "level t = level s" "trail t = trail s" "vals t = vals s" "vtab t = vtab s"
    "clauses t = clauses s" "num_clauses t = num_clauses s" "jump_avg t = jump_avg s"
    "iterating t = iterating s" "proof_log t = proof_log s" "stats t = stats s"
    "unsat t = unsat s" "resolved t = resolved s" "var t = var s" "val t = val s"
    "analyzed t = []" "clause t = []" "levels t = []" "conflict t = None"
    "\<forall>idx. status (ftab t idx) = status (ftab s idx)"
proof -
  from cleanup_result[OF assms] obtain ft co where
    t: "t = s\<lparr>ftab := ft, analyzed := [], clause := [], control := co, levels := [], conflict := None\<rparr>"
    and f: "\<forall>idx. ftab t idx = (if idx \<in> vidx ` set (analyzed s) then (ftab s idx)\<lparr>seen := False\<rparr>
                              else ftab s idx)"
    by blast
  show "level t = level s" "trail t = trail s" "vals t = vals s" "vtab t = vtab s"
    "clauses t = clauses s" "num_clauses t = num_clauses s" "jump_avg t = jump_avg s"
    "iterating t = iterating s" "proof_log t = proof_log s" "stats t = stats s"
    "unsat t = unsat s" "resolved t = resolved s" "var t = var s" "val t = val s"
    "analyzed t = []" "clause t = []" "levels t = []" "conflict t = None"
    by (simp_all add: t var_def val_def fun_eq_iff)
  show "\<forall>idx. status (ftab t idx) = status (ftab s idx)" using f by simp
qed

lemma seen_update_same: "\<exists>b. (f :: Flags) = f\<lparr>seen := b\<rparr>"
  by (rule exI[of _ "seen f"]) simp

lemma flags_frame_refl: "flags_frame s s"
  unfolding flags_frame_def by (simp add: scratch_frame_refl seen_update_same)

lemma flags_frame_trans:
  assumes "flags_frame s t" and "flags_frame t u"
  shows "flags_frame s u"
proof -
  have "\<exists>b. ftab u idx = (ftab s idx)\<lparr>seen := b\<rparr>" for idx
  proof -
    obtain b where "ftab t idx = (ftab s idx)\<lparr>seen := b\<rparr>"
      using assms(1) unfolding flags_frame_def by blast
    moreover obtain c where "ftab u idx = (ftab t idx)\<lparr>seen := c\<rparr>"
      using assms(2) unfolding flags_frame_def by blast
    ultimately have "ftab u idx = (ftab s idx)\<lparr>seen := c\<rparr>" by simp
    then show ?thesis by blast
  qed
  then show ?thesis
    using assms scratch_frame_trans unfolding flags_frame_def by blast
qed

lemma analyze_literal_flags_frame:
  assumes "analyze_literal lit (s, opn) = Inr (t, opn1)"
  shows "flags_frame s t"
proof (cases "t = s")
  case True
  then show ?thesis by (simp add: flags_frame_refl)
next
  case False
  note n = analyze_literal_new[OF assms False]
  have "\<exists>b. ftab t idx = (ftab s idx)\<lparr>seen := b\<rparr>" for idx
  proof (cases "idx = vidx lit")
    case True
    then show ?thesis unfolding n(10) by auto
  next
    case False
    then show ?thesis unfolding n(10) by (simp add: seen_update_same)
  qed
  then show ?thesis using n(14) unfolding flags_frame_def by blast
qed

lemma analyze_literals_flags_frame:
  "analyze_literals lit ls (s, opn) = Inr (t, opn1) \<Longrightarrow> flags_frame s t"
proof (induction ls arbitrary: s opn)
  case Nil
  then show ?case by (simp add: flags_frame_refl)
next
  case (Cons other rest)
  show ?case
  proof (cases "other \<noteq> lit")
    case True
    then obtain s1 o1 where a: "analyze_literal other (s, opn) = Inr (s1, o1)"
      and r: "analyze_literals lit rest (s1, o1) = Inr (t, opn1)"
      using Cons.prems by (auto split: sum.splits)
    show ?thesis using flags_frame_trans[OF analyze_literal_flags_frame[OF a] Cons.IH[OF r]] .
  next
    case False
    then show ?thesis using Cons by simp
  qed
qed

lemma save_as_resolved_clause_flags_frame: "flags_frame s (save_as_resolved_clause c s)"
  unfolding flags_frame_def
  using save_as_resolved_clause_new(1,5)[where s = s and c = c]
  by (simp add: seen_update_same)

lemma analyze_reason_flags_frame:
  assumes "analyze_reason lit c (s, opn) = Inr (t, opn1)"
  shows "flags_frame s t"
proof -
  have "analyze_literals lit (literals (clauses (save_as_resolved_clause c s) c))
          (save_as_resolved_clause c s, opn) = Inr (t, opn1)"
    using assms by (simp add: analyze_reason_def Let_def)
  from flags_frame_trans[OF save_as_resolved_clause_flags_frame analyze_literals_flags_frame[OF this]]
  show ?thesis .
qed

lemma walk_flags_frame:
  "walk s reason uip opn i = Inr (t, u) \<Longrightarrow> flags_frame s t"
proof (induction s reason uip opn i rule: walk.induct)
  case (1 s reason uip opn i)
  from walk_unfold[OF "1.prems"(1)] obtain s1 opn1 j uip1 where
    a: "(case reason of Some r \<Rightarrow> analyze_reason uip r (s, opn)
                      | None \<Rightarrow> analyze_literal 0 (s, opn)) = Inr (s1, opn1)"
    and f: "find_seen s1 i = Some (j, uip1)"
    and w: "if opn1 - 1 = 0 then t = s1 \<and> u = uip1
            else walk s1 (v_reason (var s1 uip1)) uip1 (opn1 - 1) j = Inr (t, u)"
    by blast
  have f1: "flags_frame s s1"
    using a by (cases reason) (auto intro: analyze_reason_flags_frame analyze_literal_flags_frame)
  show ?case
  proof (cases "opn1 - 1 = 0")
    case True
    then show ?thesis using w f1 by simp
  next
    case False
    then have w': "walk s1 (v_reason (var s1 uip1)) uip1 (opn1 - 1) j = Inr (t, u)" using w by simp
    show ?thesis using flags_frame_trans[OF f1 "1.IH"[OF refl a refl f refl False w']] .
  qed
qed

lemma analyze_prefix_frame:
  assumes p: "analyze_prefix minimize_clause s = Inr (s4, uip, g, sz)"
  shows "level s4 = level s" "trail s4 = trail s" "vals s4 = vals s" "vtab s4 = vtab s"
    "conflict s4 = conflict s" "opts s4 = opts s" "num_clauses s4 = num_clauses s"
    "unsat s4 = unsat s" "iterating s4 = iterating s" "proof_log s4 = proof_log s"
    "jump_avg s4 = jump_avg s" "var s4 = var s" "val s4 = val s"
    "g = int (length (levels s4))" "sz = int (length (clause s4))"
    "resolved s4 = []" "stats_fixed (stats s4) = stats_fixed (stats s)"
    "\<forall>idx. \<exists>b. ftab s4 idx = (ftab s idx)\<lparr>seen := b\<rparr>"
proof -
  from analyze_prefix_chain[OF p] obtain s1 s3 s4' where
    1: "first_uip_clause s = Inr (s1, uip)" and 3: "bump_resolved_clauses s1 = Inr s3"
    and 4: "update_statistics minimize_clause s3 = (s4', g, sz)" and 5: "s4 = bump_variables s4'"
    by blast
  obtain sw where w: "walk s (conflict s) 0 0 (length (trail s)) = Inr (sw, uip)"
    and s1: "s1 = sw\<lparr>clause := clause sw @ [- uip]\<rparr>"
    using 1 unfolding first_uip_clause_def by (auto split: sum.splits)
  have ffw: "flags_frame s sw" using walk_flags_frame[OF w] .
  then have fw: "scratch_frame s sw" by (simp add: flags_frame_def)
  note f0 = scratch_frame_fields[OF fw]
  note f3 = bump_resolved_clauses_frame[OF 3]
  note f4 = update_statistics_frame[OF 4]
  note f5 = bump_variables_frame[of s4']
  have fr: "stats_frame s1 s4"
    unfolding 5 using stats_frame_trans[OF stats_frame_trans[OF f3(1) f4(1)] f5(1)] .
  note ff = stats_frame_fields[OF fr]
  show "level s4 = level s" "trail s4 = trail s" "vals s4 = vals s" "vtab s4 = vtab s"
    "conflict s4 = conflict s" "opts s4 = opts s" "num_clauses s4 = num_clauses s"
    "unsat s4 = unsat s" "iterating s4 = iterating s" "proof_log s4 = proof_log s"
    "jump_avg s4 = jump_avg s"
    using ff f0 by (simp_all add: s1)
  then show "var s4 = var s" "val s4 = val s" by (simp_all add: var_def val_def fun_eq_iff)
  show "g = int (length (levels s4))"
    using f4(2) ff(13) stats_frame_fields(13)[OF f3(1)] by simp
  show "sz = int (length (clause s4))" unfolding 5 using f4(3) f5(3) by simp
  show "resolved s4 = []" unfolding 5 using f5(4) f4(5) f3(2) by simp
  show "stats_fixed (stats s4) = stats_fixed (stats s)"
    unfolding 5 using f5(7) f4(12) f3(10) f0(9) by (simp add: s1)
  have "ftab s4 = ftab sw" using ff(12) by (simp add: s1)
  then show "\<forall>idx. \<exists>b. ftab s4 idx = (ftab s idx)\<lparr>seen := b\<rparr>"
    using ffw unfolding flags_frame_def by simp
qed

lemmas eval_defs = analyze_def analyze_prefix_def first_uip_clause_def walk.simps analyze_reason_def
  analyze_literal_def save_as_resolved_clause_def check_learned_clause_def
  bump_resolved_clauses_def bump_clause_def sort_by_def analyzed_earlier_def update_statistics_def
  bump_variables_def use_trail_bump_def relative_def percent_def bumped_earlier_def
  trail_bumped_smaller_def bump_variable_def enqueue_def dequeue_def update_queue_unassigned_def
  backjump_def trail_larger_def new_learned_redundant_clause_def backtrack_def assign_driving_def
  assign_def assign_unit_def learn_unit_clause_def cleanup_def clear_seen_def clear_levels_def
  level_reset_def flags_def var_def val_def vidx_def bumped_def active_def Let_def
  scenario_def blank_def unset_flags_def trace_unit_clause_def

lemma sorted_trail_larger:
  "sorted_wrt (level_recency_ge s) (sort_by (trail_larger s) xs)"
proof -
  have "sorted_wrt (\<lambda>a b. \<not> trail_larger s b a) (sort_by (trail_larger s) xs)"
    by (rule sorted_sort_by) (auto simp: trail_larger_def)
  moreover have "(\<lambda>a b. \<not> trail_larger s b a) = level_recency_ge s"
    by (intro ext) (auto simp: trail_larger_def level_recency_ge_def)
  ultimately show ?thesis by simp
qed

lemma analyze_chain:
  assumes "level s \<noteq> 0" and "analyze_prefix minimize_clause s = Inr (s4, uip, g, sz)"
    and "analyze minimize_clause s = Inr s'"
  shows "\<exists>s5. backjump uip g sz s4 = Inr s5 \<and> cleanup s5 = Inr s'"
proof -
  have c: "conflict s \<noteq> None" using assms(3) by (auto simp: analyze_def split: if_splits)
  have "(case backjump uip g sz s4 of Inl e \<Rightarrow> Inl e | Inr s5 \<Rightarrow> cleanup s5) = Inr s'"
    using assms c by (simp add: analyze_def)
  then show ?thesis by (cases "backjump uip g sz s4") auto
qed

lemma remove1_last_distinct:
  assumes "distinct xs" and "xs \<noteq> []"
  shows "remove1 (last xs) xs @ [last xs] = xs"
proof -
  have e: "xs = butlast xs @ [last xs]" using assms(2) by simp
  have "last xs \<notin> set (butlast xs)" using assms e by (metis distinct_butlast not_distinct_conv_prefix)
  then have "remove1 (last xs) (butlast xs @ [last xs]) = butlast xs"
    by (simp add: remove1_append)
  then show ?thesis using e by simp
qed

lemma bump_variable_queue:
  assumes q: "queue_list (ltab s) (queue s) xs" and x: "vidx lit \<in> set xs"
  shows "queue_list (ltab (bump_variable lit s)) (queue (bump_variable lit s))
           (remove1 (vidx lit) xs @ [vidx lit])"
proof (cases "vidx lit = last xs")
  case True
  have d: "distinct xs" using q by (simp add: queue_list_def)
  have ne: "xs \<noteq> []" using x by auto
  have "bump_variable lit s = s" using bump_variable_moved[OF q x] True by simp
  then show ?thesis using q remove1_last_distinct[OF d ne] True by simp
next
  case False
  then show ?thesis using bump_variable_moved[OF q x] by simp
qed

lemma fold_bump_variable_queue:
  assumes "queue_list (ltab s) (queue s) xs" and "distinct (map vidx ys)"
    and "vidx ` set ys \<subseteq> set xs"
  shows "queue_list (ltab (fold bump_variable ys s)) (queue (fold bump_variable ys s))
           (filter (\<lambda>x. x \<notin> vidx ` set ys) xs @ map vidx ys)"
  using assms
proof (induction ys arbitrary: s xs)
  case Nil
  then show ?case by simp
next
  case (Cons y ys)
  let ?s1 = "bump_variable y s"
  let ?xs1 = "remove1 (vidx y) xs @ [vidx y]"
  have d: "distinct xs" using Cons.prems(1) by (simp add: queue_list_def)
  have q1: "queue_list (ltab ?s1) (queue ?s1) ?xs1"
    using bump_variable_queue[OF Cons.prems(1)] Cons.prems(3) by simp
  have d1: "distinct (map vidx ys)" and ny: "vidx y \<notin> vidx ` set ys" using Cons.prems(2) by simp_all
  have s1: "vidx ` set ys \<subseteq> set ?xs1" using Cons.prems(3) ny d by auto
  have "filter (\<lambda>x. x \<notin> vidx ` set ys) ?xs1 @ map vidx ys =
        filter (\<lambda>x. x \<notin> vidx ` set (y # ys)) xs @ map vidx (y # ys)"
  proof -
    have "remove1 (vidx y) xs = filter (\<lambda>x. x \<noteq> vidx y) xs"
      using d by (auto simp: distinct_remove1_removeAll removeAll_filter_not_eq intro: filter_cong)
    then have "filter (\<lambda>x. x \<notin> vidx ` set ys) (remove1 (vidx y) xs) =
          filter (\<lambda>x. x \<notin> vidx ` set (y # ys)) xs"
      by (auto intro: filter_cong)
    then show ?thesis using ny by simp
  qed
  then show ?case using Cons.IH[OF q1 d1 s1] by simp
qed

lemma use_trail_bump_eq:
  "use_trail_bump s =
     (opts_trailbump (opts s) \<and>
      opts_trailbumprops (opts s) <
        (if stats_decisions (stats s) = 0 then 0
         else of_int (stats_propagations (stats s)) / of_int (stats_decisions (stats s))) \<and>
      opts_trailbumplast (opts s) <
        (if stats_bumped (stats s) = 0 then 0
         else 100 * of_int (stats_bumplast (stats s)) / of_int (stats_bumped (stats s))))"
  by (auto simp: use_trail_bump_def relative_def percent_def)

lemma bump_variables_analyzed:
  "analyzed (bump_variables s) =
     sort_by (if use_trail_bump s then trail_bumped_smaller s else bumped_earlier s) (analyzed s)"
proof -
  let ?ys = "sort_by (if use_trail_bump s then trail_bumped_smaller s else bumped_earlier s) (analyzed s)"
  let ?s1 = "s\<lparr>analyzed := ?ys, stats := (stats s)\<lparr>stats_trailbumped :=
            stats_trailbumped (stats s) + (if use_trail_bump s then 1 else 0)\<rparr>\<rparr>"
  have b: "bump_variables s = fold bump_variable ?ys ?s1"
    by (simp add: bump_variables_def)
  have "queue_frame ?s1 (bump_variables s)" unfolding b by (rule fold_bump_variable_frame)
  from queue_frame_fields(1)[OF this] show ?thesis by simp
qed

lemma bump_variables_sorted_queue:
  "\<exists>ys. mset ys = mset (analyzed s) \<and>
     (if use_trail_bump s then sorted_wrt (trail_weighted_le s) ys
      else sorted (map (bumped s) ys)) \<and>
     analyzed (bump_variables s) = ys \<and>
     stats_trailbumped (stats (bump_variables s)) =
       stats_trailbumped (stats s) + (if use_trail_bump s then 1 else 0) \<and>
     bump_variables s =
       fold bump_variable ys
         (s\<lparr>analyzed := ys, stats := (stats s)\<lparr>stats_trailbumped :=
            stats_trailbumped (stats s) + (if use_trail_bump s then 1 else 0)\<rparr>\<rparr>) \<and>
     (\<forall>xs. queue_list (ltab s) (queue s) xs \<and> distinct (map vidx (analyzed s)) \<and>
           vidx ` set (analyzed s) \<subseteq> set xs \<longrightarrow>
        queue_list (ltab (bump_variables s)) (queue (bump_variables s))
          (filter (\<lambda>x. x \<notin> vidx ` set (analyzed s)) xs @ map vidx ys))"
proof -
  let ?c = "use_trail_bump s"
  let ?ys = "sort_by (if ?c then trail_bumped_smaller s else bumped_earlier s) (analyzed s)"
  let ?s1 = "s\<lparr>analyzed := ?ys, stats := (stats s)\<lparr>stats_trailbumped :=
            stats_trailbumped (stats s) + (if ?c then 1 else 0)\<rparr>\<rparr>"
  let ?t = "bump_variables s"
  have b: "?t = fold bump_variable ?ys ?s1"
    by (simp add: bump_variables_def)
  have qf: "queue_frame ?s1 ?t" unfolding b by (rule fold_bump_variable_frame)
  have an: "analyzed ?t = ?ys" by (rule bump_variables_analyzed)
  have tb: "stats_trailbumped (stats ?t) = stats_trailbumped (stats s) + (if ?c then 1 else 0)"
    using qf unfolding queue_frame_def by auto
  have ms: "mset ?ys = mset (analyzed s)" by simp
  have so: "if ?c then sorted_wrt (trail_weighted_le s) ?ys else sorted (map (bumped s) ?ys)"
    using sorted_trail_bumped_smaller[of s "analyzed s"] sorted_bumped_earlier[of s "analyzed s"]
    by simp
  have ql: "queue_list (ltab ?t) (queue ?t)
              (filter (\<lambda>x. x \<notin> vidx ` set (analyzed s)) xs @ map vidx ?ys)"
    if h: "queue_list (ltab s) (queue s) xs \<and> distinct (map vidx (analyzed s)) \<and>
           vidx ` set (analyzed s) \<subseteq> set xs" for xs
  proof -
    have q1: "queue_list (ltab ?s1) (queue ?s1) xs" using h by simp
    have "mset (map vidx ?ys) = mset (map vidx (analyzed s))" by simp
    then have d1: "distinct (map vidx ?ys)"
      using h by (metis mset_eq_imp_distinct_iff)
    have v1: "vidx ` set ?ys \<subseteq> set xs" using h by simp
    show ?thesis
      using fold_bump_variable_queue[OF q1 d1 v1] unfolding b[symmetric] by simp
  qed
  show ?thesis using ms so an tb b ql by (intro exI[of _ ?ys]) blast
qed

lemmas busy_defs = busy_def calm_def scenario_def blank_def

lemma busy_analyzed:
  "analyzed (bump_variables busy) = [- 1, - 2, - 3]"
  "analyzed (bump_variables calm) = [- 3, - 2, - 1]"
  by (simp_all add: bump_variables_analyzed use_trail_bump_eq busy_defs sort_by_def
      trail_bumped_smaller_def bumped_earlier_def bumped_def var_def vidx_def Let_def)

lemma busy_queue:
  "queue_list (ltab busy) (queue busy) [3, 2, 1] \<and> distinct (map vidx (analyzed busy)) \<and>
   vidx ` set (analyzed busy) \<subseteq> set [3, 2, 1]"
  "queue_list (ltab calm) (queue calm) [3, 2, 1] \<and> distinct (map vidx (analyzed calm)) \<and>
   vidx ` set (analyzed calm) \<subseteq> set [3, 2, 1]"
  by (simp_all add: queue_list_def busy_defs vidx_def)

lemma busy_stats:
  "opts_trailbump (opts busy)" "opts_trailbumprops (opts busy) = 200"
  "opts_trailbumplast (opts busy) = 40" "stats_decisions (stats busy) = 1"
  "stats_propagations (stats busy) = 1000" "stats_bumped (stats busy) = 3"
  "stats_bumplast (stats busy) = 3" "stats_trailbumped (stats busy) = 0"
  "analyzed busy = [- 2, - 3, - 1]"
  "opts_trailbump (opts calm)" "opts_trailbumprops (opts calm) = 200"
  "opts_trailbumplast (opts calm) = 40" "stats_decisions (stats calm) = 1"
  "stats_propagations (stats calm) = 200" "stats_bumped (stats calm) = 3"
  "stats_bumplast (stats calm) = 3" "stats_trailbumped (stats calm) = 0"
  "analyzed calm = [- 2, - 3, - 1]"
  by (simp_all add: busy_defs)

lemma scenario_prefix:
  "analyze_prefix clause scenario =
     Inr (fst (projr (analyze_prefix clause scenario)), 2, 2, 2)"
  by (simp add: eval_defs)

lemma scenario_analyze:
  "analyze clause scenario = Inr (projr (analyze clause scenario))"
  by (simp add: eval_defs)

lemma analyze_keeps_fixed:
  assumes "analyze minimize_clause s = Inr s'"
    and "status (ftab s idx) = FIXED"
  shows "status (ftab s' idx) = FIXED"
proof (cases "level s = 0")
  case True
  then have "s' = s\<lparr>proof_log := map_option trace_empty_clause (proof_log s), unsat := True\<rparr>"
    using assms(1) by (auto simp: analyze_def learn_empty_clause_def split: if_splits)
  then show ?thesis using assms(2) by simp
next
  case False
  have c: "conflict s \<noteq> None" using assms(1) by (auto simp: analyze_def split: if_splits)
  obtain s4 uip g sz where p: "analyze_prefix minimize_clause s = Inr (s4, uip, g, sz)"
    using assms(1) False c by (cases "analyze_prefix minimize_clause s") (auto simp: analyze_def)
  from analyze_chain[OF False p assms(1)] obtain s5 where
    b: "backjump uip g sz s4 = Inr s5" and cl: "cleanup s5 = Inr s'"
    by blast
  have 4: "status (ftab s4 idx) = FIXED"
  proof -
    obtain bb where "ftab s4 idx = (ftab s idx)\<lparr>seen := bb\<rparr>"
      using analyze_prefix_frame(18)[OF p] by blast
    then show ?thesis using assms(2) by simp
  qed
  have 5: "status (ftab s5 idx) = FIXED"
  proof (cases "sz > 1")
    case True
    have "ftab s5 = ftab s4"
      using b unfolding backjump_driving[OF True] by auto
    then show ?thesis using 4 by simp
  next
    case False
    have "ftab s5 = (ftab s4)(vidx (- uip) := (ftab s4 (vidx (- uip)))\<lparr>status := FIXED\<rparr>)"
      using b unfolding backjump_unit[OF False] by (auto split: if_splits)
    then show ?thesis using 4 by simp
  qed
  show ?thesis using cleanup_fields(19)[OF cl] 5 by simp
qed

lemma unit_scenario_prefix:
  "analyze_prefix clause unit_scenario =
     Inr (fst (projr (analyze_prefix clause unit_scenario)), 1, 1, 1)"
  by (simp add: eval_defs unit_scenario_def)

lemma unit_scenario_analyze:
  "analyze clause unit_scenario = Inr (projr (analyze clause unit_scenario))"
  by (simp add: eval_defs unit_scenario_def)

lemma backjump_fields:
  assumes "backjump uip g sz s = Inr t"
  shows "analyzed t = analyzed s" "levels t = levels s" "resolved t = resolved s"
    "stats_analyzed (stats t) = stats_analyzed (stats s)"
    "\<forall>idx. \<exists>st. ftab t idx = (ftab s idx)\<lparr>status := st\<rparr>"
    "\<forall>l. control t l = control s l \<or> control t l = level_reset"
proof -
  have "analyzed t = analyzed s \<and> levels t = levels s \<and> resolved t = resolved s \<and>
    stats_analyzed (stats t) = stats_analyzed (stats s) \<and>
    (\<forall>idx. \<exists>st. ftab t idx = (ftab s idx)\<lparr>status := st\<rparr>) \<and>
    (\<forall>l. control t l = control s l \<or> control t l = level_reset)"
  proof (cases "sz > 1")
    case True
    have e: "\<exists>st. (f :: Flags) = f\<lparr>status := st\<rparr>" for f
      by (rule exI[of _ "status f"]) simp
    show ?thesis using assms e unfolding backjump_driving[OF True] by auto
  next
    case False
    have e: "\<exists>st. (f :: Flags) = f\<lparr>status := st\<rparr>" for f
      by (rule exI[of _ "status f"]) simp
    show ?thesis using assms e unfolding backjump_unit[OF False] by (auto split: if_splits)
  qed
  then show "analyzed t = analyzed s" "levels t = levels s" "resolved t = resolved s"
    "stats_analyzed (stats t) = stats_analyzed (stats s)"
    "\<forall>idx. \<exists>st. ftab t idx = (ftab s idx)\<lparr>status := st\<rparr>"
    "\<forall>l. control t l = control s l \<or> control t l = level_reset"
    by blast+
qed

lemma analyze_Inr_chain:
  assumes "level s \<noteq> 0" and "analyze minimize_clause s = Inr s'"
  shows "\<exists>s4 uip g sz s5. analyze_prefix minimize_clause s = Inr (s4, uip, g, sz) \<and>
           backjump uip g sz s4 = Inr s5 \<and> cleanup s5 = Inr s'"
proof -
  have c: "conflict s \<noteq> None" using assms(2) by (auto simp: analyze_def split: if_splits)
  obtain s4 uip g sz where p: "analyze_prefix minimize_clause s = Inr (s4, uip, g, sz)"
    using assms c by (cases "analyze_prefix minimize_clause s") (auto simp: analyze_def)
  from analyze_chain[OF assms(1) p assms(2)] p show ?thesis by blast
qed

lemma analyze_cleanup_succeeds:
  assumes "scratch_clean s"
    and "\<forall>idx. \<not> keep (ftab s idx) \<and> \<not> poison (ftab s idx) \<and> \<not> removable (ftab s idx)"
    and p: "analyze_prefix minimize_clause s = Inr (s4, uip, g, sz)"
    and b: "backjump uip g sz s4 = Inr s5"
  shows "\<exists>s'. cleanup s5 = Inr s'"
proof -
  note pf = analyze_prefix_facts[OF assms(1) p]
  note bf = backjump_fields[OF b]
  have d: "distinct (map vidx (analyzed s5))" using pf(2) bf(1) by simp
  have "seen (flags s5 lit) \<and> \<not> keep (flags s5 lit) \<and> \<not> poison (flags s5 lit) \<and>
      \<not> removable (flags s5 lit)" if "lit \<in> set (analyzed s5)" for lit
  proof -
    obtain st where 5: "ftab s5 (vidx lit) = (ftab s4 (vidx lit))\<lparr>status := st\<rparr>" using bf(5) by blast
    have 4: "ftab s4 (vidx lit) = (ftab s (vidx lit))\<lparr>seen := vidx lit \<in> vidx ` set (analyzed s4)\<rparr>"
      using pf(1) by simp
    have "vidx lit \<in> vidx ` set (analyzed s4)" using that bf(1) by simp
    then show ?thesis using 4 5 assms(2) by (simp add: flags_def)
  qed
  then obtain t where "clear_seen_flags (analyzed s5) s5 = Inr t"
    using clear_seen_flags_total[OF d] by blast
  then show ?thesis by (simp add: cleanup_def clear_seen_def)
qed

lemma scenario_clean: "scratch_clean scenario"
  by (simp add: scratch_clean_def scenario_def blank_def unset_flags_def)

lemma sorted_analyzed_earlier:
  "sorted (map (\<lambda>c. c_analyzed (clauses s c)) (sort_by (analyzed_earlier s) xs))"
proof -
  have "sorted_wrt (\<lambda>a b. \<not> analyzed_earlier s b a) (sort_by (analyzed_earlier s) xs)"
    by (rule sorted_sort_by) (auto simp: analyzed_earlier_def)
  then show ?thesis by (simp add: sorted_map analyzed_earlier_def not_less)
qed

lemma scenario_first_uip:
  "first_uip_clause scenario = Inr (fst (projr (first_uip_clause scenario)), 2)"
  by (simp add: eval_defs)

lemma scenario_check:
  "check_learned_clause (fst (projr (first_uip_clause scenario))) =
     Inr (fst (projr (first_uip_clause scenario)))"
  by (simp add: eval_defs)

lemma vidx_minus [simp]: "vidx (- lit) = vidx lit"
  by (simp add: vidx_def)

lemma var_minus [simp]: "var s (- lit) = var s lit"
  by (simp add: var_def)

lemma flags_minus [simp]: "flags s (- lit) = flags s lit"
  by (simp add: flags_def)

lemma val_minus: "lit \<noteq> 0 \<Longrightarrow> val s (- lit) = - val s lit"
  by (auto simp: val_def)

lemma var_vidx_cong: "vidx a = vidx b \<Longrightarrow> var s a = var s b"
  by (simp add: var_def)

lemma flags_vidx_cong: "vidx a = vidx b \<Longrightarrow> flags s a = flags s b"
  by (simp add: flags_def)

lemma trail_ok_nth:
  assumes "trail_ok s" and "p < length (trail s)"
  shows "v_trail (var s (trail s ! p)) = p" "trail s ! p \<noteq> 0" "val s (trail s ! p) > 0"
    "v_level (var s (trail s ! p)) \<le> level s"
proof -
  have "map (\<lambda>lit. v_trail (var s lit)) (trail s) ! p = [0..<length (trail s)] ! p"
    using assms(1) by (simp add: trail_ok_def)
  then show "v_trail (var s (trail s ! p)) = p" using assms(2) by simp
  have "list_all (\<lambda>lit. lit \<noteq> 0 \<and> val s lit > 0 \<and> v_level (var s lit) \<le> level s) (trail s)"
    using assms(1) by (simp add: trail_ok_def)
  then have "trail s ! p \<noteq> 0 \<and> val s (trail s ! p) > 0 \<and> v_level (var s (trail s ! p)) \<le> level s"
    using assms(2) by (simp add: list_all_length)
  then show "trail s ! p \<noteq> 0" "val s (trail s ! p) > 0"
    "v_level (var s (trail s ! p)) \<le> level s" by simp_all
qed

lemma trail_ok_mono:
  assumes "trail_ok s" and "p \<le> q" and "q < length (trail s)"
  shows "v_level (var s (trail s ! p)) \<le> v_level (var s (trail s ! q))"
proof -
  have "sorted (map (\<lambda>lit. v_level (var s lit)) (trail s))"
    using assms(1) by (simp add: trail_ok_def)
  from sorted_nth_mono[OF this, of p q] assms(2,3) show ?thesis by simp
qed

lemma trail_ok_inj:
  assumes "trail_ok s" and "p < length (trail s)" and "q < length (trail s)"
    and "vidx (trail s ! p) = vidx (trail s ! q)"
  shows "p = q"
proof -
  have "p = v_trail (var s (trail s ! p))" using trail_ok_nth(1)[OF assms(1,2)] by (rule sym)
  also have "\<dots> = v_trail (var s (trail s ! q))" using var_vidx_cong[OF assms(4)] by (rule arg_cong)
  also have "\<dots> = q" using trail_ok_nth(1)[OF assms(1,3)] .
  finally show ?thesis .
qed

lemma falsified_beforeD:
  assumes "trail_ok s" and "falsified_before s i lit"
  shows "lit \<noteq> 0" "v_trail (var s lit) < i" "i \<le> length (trail s)"
    "vidx (trail s ! v_trail (var s lit)) = vidx lit" "val s lit < 0"
proof -
  show 1: "lit \<noteq> 0" and 2: "v_trail (var s lit) < i" and 3: "i \<le> length (trail s)"
    using assms(2) by (simp_all add: falsified_before_def)
  have 4: "trail s ! v_trail (var s lit) = - lit" using assms(2) by (simp add: falsified_before_def)
  then show "vidx (trail s ! v_trail (var s lit)) = vidx lit" by simp
  have "val s (- lit) > 0" using trail_ok_nth(3)[OF assms(1), of "v_trail (var s lit)"] 2 3 4 by simp
  then show "val s lit < 0" using val_minus[OF 1, of s] by simp
qed

lemma analyze_literal_skip:
  "lit \<noteq> 0 \<Longrightarrow> seen (flags s lit) \<or> v_level (var s lit) = 0 \<Longrightarrow>
   analyze_literal lit (s, opn) = Inr (s, opn)"
  by (auto simp: analyze_literal_def Let_def)

lemma analyze_literal_returns:
  "lit \<noteq> 0 \<Longrightarrow> val s lit < 0 \<Longrightarrow> \<exists>t opn1. analyze_literal lit (s, opn) = Inr (t, opn1)"
  by (simp add: analyze_literal_def Let_def)

lemma analyze_literal_changes:
  assumes a: "analyze_literal lit (s, opn) = Inr (t, opn1)"
    and n: "\<not> seen (flags s lit)" "v_level (var s lit) \<noteq> 0"
  shows "t \<noteq> s"
proof
  assume e: "t = s"
  from analyze_literal_cases[OF a] n have
    "t = s\<lparr>clause := (if v_level (var s lit) < level s then clause s @ [lit] else clause s),
                 levels := (if l_seen (control s (v_level (var s lit))) = 0
                            then levels s @ [v_level (var s lit)] else levels s),
                 control := (control s)(v_level (var s lit) :=
                    (if int (v_trail (var s lit)) < l_trail (control s (v_level (var s lit)))
                     then (control s (v_level (var s lit)))
                            \<lparr>l_seen := l_seen (control s (v_level (var s lit))) + 1,
                             l_trail := int (v_trail (var s lit))\<rparr>
                     else (control s (v_level (var s lit)))
                            \<lparr>l_seen := l_seen (control s (v_level (var s lit))) + 1\<rparr>)),
                 ftab := (ftab s)(vidx lit := (ftab s (vidx lit))\<lparr>seen := True\<rparr>),
                 analyzed := analyzed s @ [lit]\<rparr>"
    by blast
  then have "analyzed t = analyzed s @ [lit]" by simp
  then show False using e by simp
qed

lemma open_count_insert:
  assumes ok: "trail_ok s0" and q: "q < i" and i: "i \<le> length (trail s0)"
    and ns: "\<not> seen (flags s (trail s0 ! q))"
    and t: "\<And>x. seen (flags t x) = (vidx x = vidx (trail s0 ! q) \<or> seen (flags s x))"
  shows "open_count s0 t i =
           (if v_level (var s0 (trail s0 ! q)) = level s0 then Suc (open_count s0 s i)
            else open_count s0 s i)"
proof -
  let ?A = "{p. p < i \<and> seen (flags s (trail s0 ! p)) \<and> v_level (var s0 (trail s0 ! p)) = level s0}"
  let ?B = "{p. p < i \<and> seen (flags t (trail s0 ! p)) \<and> v_level (var s0 (trail s0 ! p)) = level s0}"
  have eq: "vidx (trail s0 ! p) = vidx (trail s0 ! q) \<longleftrightarrow> p = q" if "p < i" for p
    using trail_ok_inj[OF ok, of p q] that q i by auto
  have fin: "finite ?A" by simp
  have nq: "q \<notin> ?A" using ns by simp
  show ?thesis
  proof (cases "v_level (var s0 (trail s0 ! q)) = level s0")
    case True
    have "?B = insert q ?A" using t eq q True by auto
    then have "card ?B = Suc (card ?A)" using fin nq by simp
    then show ?thesis using True by (simp add: open_count_def)
  next
    case False
    have "?B = ?A" using t eq False by auto
    then show ?thesis using False by (simp add: open_count_def)
  qed
qed

lemma analyze_literal_count:
  assumes inv: "walk_inv s0 s" and ok: "trail_ok s0" and fb: "falsified_before s0 i lit"
  shows "\<exists>t. analyze_literal lit (s, int (open_count s0 s i)) = Inr (t, int (open_count s0 t i)) \<and>
             walk_inv s0 t \<and> (\<forall>x. seen (flags s x) \<longrightarrow> seen (flags t x)) \<and>
             (v_level (var s0 lit) \<noteq> 0 \<longrightarrow> seen (flags t lit))"
proof -
  note fbd = falsified_beforeD[OF ok fb]
  have fr: "scratch_frame s0 s" using inv by (simp add: walk_inv_def)
  note f = scratch_frame_fields[OF fr]
  show ?thesis
  proof (cases "seen (flags s lit) \<or> v_level (var s lit) = 0")
    case True
    have "analyze_literal lit (s, int (open_count s0 s i)) = Inr (s, int (open_count s0 s i))"
      using analyze_literal_skip[OF fbd(1) True] .
    then show ?thesis using inv True f(19) by auto
  next
    case False
    let ?q = "v_trail (var s0 lit)"
    have v: "val s lit < 0" using fbd(5) f(20) by simp
    from analyze_literal_returns[OF fbd(1) v] obtain t opn1 where
      a: "analyze_literal lit (s, int (open_count s0 s i)) = Inr (t, opn1)" by blast
    have ts: "t \<noteq> s" using analyze_literal_changes[OF a] False by simp
    note n = analyze_literal_new[OF a ts]
    have inv': "walk_inv s0 t" using analyze_literal_inv[OF inv a] .
    have st: "seen (flags t x) = (vidx x = vidx (trail s0 ! ?q) \<or> seen (flags s x))" for x
      unfolding flags_def n(10) fbd(4) by simp
    have nsq: "\<not> seen (flags s (trail s0 ! ?q))"
      using False flags_vidx_cong[OF fbd(4), of s] by simp
    have lv: "v_level (var s0 (trail s0 ! ?q)) = v_level (var s0 lit)"
      using var_vidx_cong[OF fbd(4), of s0] by simp
    have "open_count s0 t i =
           (if v_level (var s0 (trail s0 ! ?q)) = level s0 then Suc (open_count s0 s i)
            else open_count s0 s i)"
      using open_count_insert[OF ok fbd(2,3) nsq st] .
    then have "opn1 = int (open_count s0 t i)"
      using n(5) lv f(1,19) by simp
    moreover have "seen (flags t lit)" using st fbd(4) by simp
    moreover have "\<forall>x. seen (flags s x) \<longrightarrow> seen (flags t x)" using st by simp
    ultimately show ?thesis using a inv' by blast
  qed
qed

lemma analyze_literals_count:
  assumes "walk_inv s0 s" and ok: "trail_ok s0"
    and "\<forall>other \<in> set ls. other \<noteq> lit \<longrightarrow> falsified_before s0 i other"
  shows "\<exists>t. analyze_literals lit ls (s, int (open_count s0 s i)) = Inr (t, int (open_count s0 t i)) \<and>
             walk_inv s0 t \<and> (\<forall>x. seen (flags s x) \<longrightarrow> seen (flags t x)) \<and>
             (\<forall>other \<in> set ls. other \<noteq> lit \<and> v_level (var s0 other) \<noteq> 0 \<longrightarrow> seen (flags t other))"
  using assms(1,3)
proof (induction ls arbitrary: s)
  case Nil
  then show ?case by simp
next
  case (Cons other rest)
  have r: "\<forall>o' \<in> set rest. o' \<noteq> lit \<longrightarrow> falsified_before s0 i o'" using Cons.prems(2) by simp
  show ?case
  proof (cases "other \<noteq> lit")
    case True
    then have fb: "falsified_before s0 i other" using Cons.prems(2) by simp
    from analyze_literal_count[OF Cons.prems(1) ok fb] obtain s1 where
      a: "analyze_literal other (s, int (open_count s0 s i)) = Inr (s1, int (open_count s0 s1 i))"
      and i1: "walk_inv s0 s1" and m1: "\<forall>x. seen (flags s x) \<longrightarrow> seen (flags s1 x)"
      and o1: "v_level (var s0 other) \<noteq> 0 \<longrightarrow> seen (flags s1 other)"
      by blast
    from Cons.IH[OF i1 r] obtain t where
      b: "analyze_literals lit rest (s1, int (open_count s0 s1 i)) = Inr (t, int (open_count s0 t i))"
      and i2: "walk_inv s0 t" and m2: "\<forall>x. seen (flags s1 x) \<longrightarrow> seen (flags t x)"
      and o2: "\<forall>o' \<in> set rest. o' \<noteq> lit \<and> v_level (var s0 o') \<noteq> 0 \<longrightarrow> seen (flags t o')"
      by blast
    have "analyze_literals lit (other # rest) (s, int (open_count s0 s i)) =
            Inr (t, int (open_count s0 t i))"
      using True a b by simp
    moreover have "\<forall>x. seen (flags s x) \<longrightarrow> seen (flags t x)" using m1 m2 by blast
    moreover have "\<forall>o' \<in> set (other # rest). o' \<noteq> lit \<and> v_level (var s0 o') \<noteq> 0 \<longrightarrow> seen (flags t o')"
      using o1 o2 m2 by auto
    ultimately show ?thesis using i2 by blast
  next
    case False
    from Cons.IH[OF Cons.prems(1) r] obtain t where
      b: "analyze_literals lit rest (s, int (open_count s0 s i)) = Inr (t, int (open_count s0 t i))"
      and i2: "walk_inv s0 t" and m2: "\<forall>x. seen (flags s x) \<longrightarrow> seen (flags t x)"
      and o2: "\<forall>o' \<in> set rest. o' \<noteq> lit \<and> v_level (var s0 o') \<noteq> 0 \<longrightarrow> seen (flags t o')"
      by blast
    have "analyze_literals lit (other # rest) (s, int (open_count s0 s i)) =
            Inr (t, int (open_count s0 t i))"
      using False b by simp
    moreover have "\<forall>o' \<in> set (other # rest). o' \<noteq> lit \<and> v_level (var s0 o') \<noteq> 0 \<longrightarrow> seen (flags t o')"
      using o2 False by auto
    ultimately show ?thesis using i2 m2 by blast
  qed
qed

lemma walk_inv_literals:
  assumes "walk_inv s0 s"
  shows "literals (clauses s c) = literals (clauses s0 c)"
proof -
  have "clauses s c = clauses s0 c \<or> clauses s c = (clauses s0 c)\<lparr>used := True\<rparr>"
    using assms unfolding walk_inv_def by blast
  then show ?thesis by auto
qed

lemma analyze_reason_count:
  assumes inv: "walk_inv s0 s" and ok: "trail_ok s0"
    and fb: "\<forall>other \<in> set (literals (clauses s0 r)). other \<noteq> lit \<longrightarrow> falsified_before s0 i other"
  shows "\<exists>t. analyze_reason lit r (s, int (open_count s0 s i)) = Inr (t, int (open_count s0 t i)) \<and>
             walk_inv s0 t \<and> (\<forall>x. seen (flags s x) \<longrightarrow> seen (flags t x)) \<and>
             (\<forall>other \<in> set (literals (clauses s0 r)).
                other \<noteq> lit \<and> v_level (var s0 other) \<noteq> 0 \<longrightarrow> seen (flags t other))"
proof -
  let ?s1 = "save_as_resolved_clause r s"
  have i1: "walk_inv s0 ?s1" using save_as_resolved_clause_inv[OF inv] .
  have fl: "flags ?s1 = flags s"
    using save_as_resolved_clause_new(5)[where s = s and c = r] by (simp add: flags_def fun_eq_iff)
  have oc: "open_count s0 ?s1 i = open_count s0 s i" by (simp add: open_count_def fl)
  have li: "literals (clauses ?s1 r) = literals (clauses s0 r)" using walk_inv_literals[OF i1] .
  from analyze_literals_count[OF i1 ok fb] obtain t where
    b: "analyze_literals lit (literals (clauses s0 r)) (?s1, int (open_count s0 ?s1 i)) =
          Inr (t, int (open_count s0 t i))"
    and i2: "walk_inv s0 t" and m2: "\<forall>x. seen (flags ?s1 x) \<longrightarrow> seen (flags t x)"
    and o2: "\<forall>other \<in> set (literals (clauses s0 r)).
                other \<noteq> lit \<and> v_level (var s0 other) \<noteq> 0 \<longrightarrow> seen (flags t other)"
    by blast
  have "analyze_reason lit r (s, int (open_count s0 s i)) = Inr (t, int (open_count s0 t i))"
    using b by (simp add: analyze_reason_def Let_def li oc)
  then show ?thesis using i2 m2 o2 fl by auto
qed

lemma find_seen_exists:
  assumes "p < i" and "seen (flags s (trail s ! p))"
  shows "\<exists>j. find_seen s i = Some (j, trail s ! j) \<and> p \<le> j \<and> j < i \<and>
             seen (flags s (trail s ! j)) \<and>
             (\<forall>k. j < k \<and> k < i \<longrightarrow> \<not> seen (flags s (trail s ! k)))"
  using assms
proof (induction i)
  case 0
  then show ?case by simp
next
  case (Suc i)
  show ?case
  proof (cases "seen (flags s (trail s ! i))")
    case True
    then have "find_seen s (Suc i) = Some (i, trail s ! i)" by (simp add: Let_def)
    then show ?thesis using True Suc.prems by (intro exI[of _ i]) auto
  next
    case False
    then have "p \<noteq> i" using Suc.prems(2) by auto
    then have "p < i" using Suc.prems(1) by simp
    from Suc.IH[OF this Suc.prems(2)] obtain j where
      j: "find_seen s i = Some (j, trail s ! j)" "p \<le> j" "j < i" "seen (flags s (trail s ! j))"
        "\<forall>k. j < k \<and> k < i \<longrightarrow> \<not> seen (flags s (trail s ! k))"
      by blast
    have "find_seen s (Suc i) = Some (j, trail s ! j)" using False j(1) by (simp add: Let_def)
    moreover have "\<forall>k. j < k \<and> k < Suc i \<longrightarrow> \<not> seen (flags s (trail s ! k))"
      using j(5) False by (auto simp: less_Suc_eq)
    ultimately show ?thesis using j(2,3,4) by (intro exI[of _ j]) auto
  qed
qed

lemma open_count_pos:
  assumes "0 < open_count s0 s i"
  shows "\<exists>p < i. seen (flags s (trail s0 ! p)) \<and> v_level (var s0 (trail s0 ! p)) = level s0"
proof -
  have "{p. p < i \<and> seen (flags s (trail s0 ! p)) \<and>
              v_level (var s0 (trail s0 ! p)) = level s0} \<noteq> {}"
    using assms unfolding open_count_def by (metis card.empty less_numeral_extra(3))
  then show ?thesis by blast
qed

lemma open_count_found:
  assumes "j < i" and "seen (flags s (trail s0 ! j))"
    and "v_level (var s0 (trail s0 ! j)) = level s0"
    and "\<forall>k. j < k \<and> k < i \<longrightarrow> \<not> seen (flags s (trail s0 ! k))"
  shows "open_count s0 s i = Suc (open_count s0 s j)"
proof -
  let ?P = "\<lambda>p. seen (flags s (trail s0 ! p)) \<and> v_level (var s0 (trail s0 ! p)) = level s0"
  have "{p. p < i \<and> ?P p} = insert j {p. p < j \<and> ?P p}"
    using assms by (auto simp: not_less) (metis linorder_neqE_nat)
  moreover have "j \<notin> {p. p < j \<and> ?P p}" by simp
  moreover have "finite {p. p < j \<and> ?P p}" by simp
  ultimately show ?thesis unfolding open_count_def by simp
qed

lemma open_count_decision:
  assumes ok: "trail_ok s0" and rs: "reasons_ok s0" and j: "j < length (trail s0)"
    and n: "v_reason (var s0 (trail s0 ! j)) = None"
    and l: "v_level (var s0 (trail s0 ! j)) = level s0" and l0: "level s0 \<noteq> 0"
  shows "open_count s0 s j = 0"
proof -
  let ?u = "trail s0 ! j"
  have "case v_reason (var s0 ?u) of
              Some r \<Rightarrow>
                list_all (\<lambda>other. other = ?u \<or> falsified_before s0 (v_trail (var s0 ?u)) other)
                  (literals (clauses s0 r))
            | None \<Rightarrow>
                v_level (var s0 ?u) = 0 \<or>
                list_all (\<lambda>w. v_level (var s0 w) < v_level (var s0 ?u))
                  (take (v_trail (var s0 ?u)) (trail s0))"
    using rs j unfolding reasons_ok_def by (simp add: list_all_length)
  then have "list_all (\<lambda>w. v_level (var s0 w) < level s0) (take j (trail s0))"
    using n l l0 trail_ok_nth(1)[OF ok j] by simp
  then have "v_level (var s0 (trail s0 ! p)) < level s0" if "p < j" for p
    using that j by (simp add: list_all_length)
  then have "{p. p < j \<and> seen (flags s (trail s0 ! p)) \<and>
              v_level (var s0 (trail s0 ! p)) = level s0} = {}"
    by fastforce
  then show ?thesis by (simp add: open_count_def)
qed

lemma reasons_ok_reason:
  assumes ok: "trail_ok s0" and rs: "reasons_ok s0" and j: "j < length (trail s0)"
    and r: "v_reason (var s0 (trail s0 ! j)) = Some r"
  shows "\<forall>other \<in> set (literals (clauses s0 r)).
           other \<noteq> trail s0 ! j \<longrightarrow> falsified_before s0 j other"
proof -
  let ?u = "trail s0 ! j"
  have "case v_reason (var s0 ?u) of
              Some r \<Rightarrow>
                list_all (\<lambda>other. other = ?u \<or> falsified_before s0 (v_trail (var s0 ?u)) other)
                  (literals (clauses s0 r))
            | None \<Rightarrow>
                v_level (var s0 ?u) = 0 \<or>
                list_all (\<lambda>w. v_level (var s0 w) < v_level (var s0 ?u))
                  (take (v_trail (var s0 ?u)) (trail s0))"
    using rs j unfolding reasons_ok_def by (simp add: list_all_length)
  then have "list_all (\<lambda>other. other = ?u \<or> falsified_before s0 j other) (literals (clauses s0 r))"
    using r trail_ok_nth(1)[OF ok j] by simp
  then show ?thesis by (auto simp: list_all_iff)
qed

lemma open_count_posI:
  assumes "p < i" and "seen (flags s (trail s0 ! p))"
    and "v_level (var s0 (trail s0 ! p)) = level s0"
  shows "0 < open_count s0 s i"
proof -
  let ?A = "{p. p < i \<and> seen (flags s (trail s0 ! p)) \<and>
              v_level (var s0 (trail s0 ! p)) = level s0}"
  have "p \<in> ?A" using assms by simp
  then have "?A \<noteq> {}" by blast
  moreover have "finite ?A" by simp
  ultimately have "0 < card ?A" using card_gt_0_iff by blast
  then show ?thesis unfolding open_count_def .
qed

lemma resolvent_top: "resolvent s (length (trail s)) = conflict_literals s"
  by (simp add: resolvent_def)

lemma resolvent_step:
  "i < length (trail s) \<Longrightarrow> resolvent s i = resolve s (trail s ! i) (resolvent s (Suc i))"
  by (simp add: resolvent_def Cons_nth_drop_Suc[symmetric])

lemma resolve_skip: "- u \<notin> set C \<Longrightarrow> resolve s u C = C"
  by (simp add: resolve_def)

lemma set_resolve:
  "- u \<in> set C \<Longrightarrow> v_reason (var s u) = Some r \<Longrightarrow>
   set (resolve s u C) =
     (set C - {- u}) \<union> {l \<in> set (literals (clauses s r)). l \<noteq> u \<and> v_level (var s l) \<noteq> 0}"
  by (auto simp: resolve_def)

lemma distinct_resolve: "distinct C \<Longrightarrow> distinct (resolve s u C)"
  by (simp add: resolve_def split: option.splits)

lemma distinct_fold_resolve: "distinct C \<Longrightarrow> distinct (fold (resolve s) us C)"
  by (induction us arbitrary: C) (simp_all add: distinct_resolve)

lemma distinct_resolvent: "distinct (resolvent s i)"
  unfolding resolvent_def
  by (rule distinct_fold_resolve) (simp add: conflict_literals_def split: option.splits)

lemma resolvent_gap:
  "q \<le> i \<Longrightarrow> i \<le> length (trail s) \<Longrightarrow>
   (\<forall>k. q \<le> k \<and> k < i \<longrightarrow> - (trail s ! k) \<notin> set (resolvent s i)) \<Longrightarrow>
   resolvent s q = resolvent s i"
proof (induction "i - q" arbitrary: q)
  case 0
  then show ?case by simp
next
  case (Suc d)
  have qi: "q < i" using Suc.hyps(2) by simp
  have "resolvent s (Suc q) = resolvent s i"
    using Suc.hyps(1)[of "Suc q"] Suc.hyps(2) Suc.prems by simp
  moreover have "resolvent s q = resolve s (trail s ! q) (resolvent s (Suc q))"
    using resolvent_step[of q s] qi Suc.prems(2) by simp
  moreover have "- (trail s ! q) \<notin> set (resolvent s i)" using Suc.prems(3) qi by simp
  ultimately show ?case by (simp add: resolve_skip)
qed

lemma falsified_same:
  "vidx a = vidx b \<Longrightarrow> val s a < 0 \<Longrightarrow> val s b < 0 \<Longrightarrow> a = b"
  by (auto simp: val_def vidx_def split: if_splits)

lemma analyze_literal_analyzed:
  assumes "analyze_literal lit (s, opn) = Inr (t, opn1)"
  shows "analyzed t = analyzed s \<or> analyzed t = analyzed s @ [lit]"
proof (cases "t = s")
  case True
  then show ?thesis by simp
next
  case False
  then show ?thesis using analyze_literal_new(11)[OF assms False] by simp
qed

lemma analyze_literals_analyzed:
  "analyze_literals lit ls (s, opn) = Inr (t, opn1) \<Longrightarrow>
   set (analyzed s) \<subseteq> set (analyzed t) \<and>
   set (analyzed t) \<subseteq> set (analyzed s) \<union> {other \<in> set ls. other \<noteq> lit}"
proof (induction ls arbitrary: s opn)
  case Nil
  then show ?case by simp
next
  case (Cons other rest)
  show ?case
  proof (cases "other \<noteq> lit")
    case True
    then obtain s1 o1 where a: "analyze_literal other (s, opn) = Inr (s1, o1)"
      and r: "analyze_literals lit rest (s1, o1) = Inr (t, opn1)"
      using Cons.prems by (auto split: sum.splits)
    from analyze_literal_analyzed[OF a] Cons.IH[OF r] True show ?thesis by auto
  next
    case False
    then have "analyze_literals lit rest (s, opn) = Inr (t, opn1)" using Cons.prems by simp
    from Cons.IH[OF this] show ?thesis by auto
  qed
qed

lemma analyze_reason_analyzed:
  assumes "analyze_reason lit r (s, opn) = Inr (t, opn1)" and "walk_inv s0 s"
  shows "set (analyzed s) \<subseteq> set (analyzed t)"
    "set (analyzed t) \<subseteq> set (analyzed s) \<union> {other \<in> set (literals (clauses s0 r)). other \<noteq> lit}"
proof -
  let ?s1 = "save_as_resolved_clause r s"
  have i1: "walk_inv s0 ?s1" using save_as_resolved_clause_inv[OF assms(2)] .
  have li: "literals (clauses ?s1 r) = literals (clauses s0 r)" using walk_inv_literals[OF i1] .
  have an: "analyzed ?s1 = analyzed s" using save_as_resolved_clause_new(6)[where s = s and c = r] .
  have "analyze_literals lit (literals (clauses s0 r)) (?s1, opn) = Inr (t, opn1)"
    using assms(1) by (simp add: analyze_reason_def Let_def li)
  from analyze_literals_analyzed[OF this] an
  show "set (analyzed s) \<subseteq> set (analyzed t)"
    "set (analyzed t) \<subseteq> set (analyzed s) \<union> {other \<in> set (literals (clauses s0 r)). other \<noteq> lit}"
    by simp_all
qed

lemma analyzed_pos:
  assumes "trail_ok s0" and "falsified_before s0 n l"
  shows "l = - (trail s0 ! v_trail (var s0 l))" "v_trail (var s0 l) < n" "n \<le> length (trail s0)"
  using assms(2) by (simp_all add: falsified_before_def)

lemma seen_analyzed:
  assumes inv: "walk_inv s0 s" and ok: "trail_ok s0"
    and fb: "\<forall>l \<in> set (analyzed s). falsified_before s0 (length (trail s0)) l"
    and p: "p < length (trail s0)"
  shows "seen (flags s (trail s0 ! p)) = (- (trail s0 ! p) \<in> set (analyzed s))"
proof
  assume "seen (flags s (trail s0 ! p))"
  then have "vidx (trail s0 ! p) \<in> vidx ` set (analyzed s)" using walk_inv_seen[OF inv] by simp
  then obtain l where l: "l \<in> set (analyzed s)" "vidx (trail s0 ! p) = vidx l" by blast
  have f: "falsified_before s0 (length (trail s0)) l" using fb l(1) by blast
  have "v_trail (var s0 l) = v_trail (var s0 (trail s0 ! p))"
    using var_vidx_cong[OF l(2), of s0] by simp
  then have "v_trail (var s0 l) = p" using trail_ok_nth(1)[OF ok p] by simp
  then have "l = - (trail s0 ! p)" using analyzed_pos(1)[OF ok f] by simp
  then show "- (trail s0 ! p) \<in> set (analyzed s)" using l(1) by simp
next
  assume "- (trail s0 ! p) \<in> set (analyzed s)"
  then have "vidx (- (trail s0 ! p)) \<in> vidx ` set (analyzed s)" by (rule imageI)
  then show "seen (flags s (trail s0 ! p))" using walk_inv_seen[OF inv, of "trail s0 ! p"] by simp
qed

lemma resolved_to_count:
  assumes inv: "walk_inv s0 s" and ok: "trail_ok s0" and r: "resolved_to s0 s i"
    and i: "i \<le> length (trail s0)"
  shows "length (filter (\<lambda>l. v_level (var s0 l) = level s0) (resolvent s0 i)) = open_count s0 s i"
proof -
  let ?cur = "\<lambda>l. v_level (var s0 l) = level s0"
  let ?P = "{p. p < i \<and> seen (flags s (trail s0 ! p)) \<and> ?cur (trail s0 ! p)}"
  let ?f = "\<lambda>p. - (trail s0 ! p)"
  have fb: "\<forall>l \<in> set (analyzed s). falsified_before s0 (length (trail s0)) l"
    and R: "set (resolvent s0 i) = {l \<in> set (analyzed s). v_trail (var s0 l) < i}"
    using r by (simp_all add: resolved_to_def)
  have "length (filter ?cur (resolvent s0 i)) = card ({l. ?cur l} \<inter> set (resolvent s0 i))"
    using distinct_length_filter[OF distinct_resolvent] .
  also have "{l. ?cur l} \<inter> set (resolvent s0 i) = ?f ` ?P"
  proof (intro equalityI subsetI)
    fix l assume "l \<in> {l. ?cur l} \<inter> set (resolvent s0 i)"
    then have l: "?cur l" "l \<in> set (analyzed s)" "v_trail (var s0 l) < i" using R by auto
    let ?p = "v_trail (var s0 l)"
    have f: "falsified_before s0 (length (trail s0)) l" using fb l(2) by blast
    note a = analyzed_pos[OF ok f]
    have pn: "?p < length (trail s0)" using a(2) .
    have "- (trail s0 ! ?p) \<in> set (analyzed s)" using a(1) l(2) by simp
    then have "seen (flags s (trail s0 ! ?p))" using seen_analyzed[OF inv ok fb pn] by simp
    moreover have "?cur (trail s0 ! ?p)"
    proof -
      have "var s0 (trail s0 ! ?p) = var s0 (- (trail s0 ! ?p))" by simp
      also have "\<dots> = var s0 l" using a(1) by simp
      finally show ?thesis using l(1) by simp
    qed
    ultimately have "?p \<in> ?P" using l(3) by simp
    moreover have "l = ?f ?p" using a(1) .
    ultimately show "l \<in> ?f ` ?P" by blast
  next
    fix l assume "l \<in> ?f ` ?P"
    then obtain p where p: "p < i" "seen (flags s (trail s0 ! p))" "?cur (trail s0 ! p)"
      and l: "l = - (trail s0 ! p)" by blast
    have pn: "p < length (trail s0)" using p(1) i by simp
    have "l \<in> set (analyzed s)" using seen_analyzed[OF inv ok fb pn] p(2) l by simp
    moreover have "v_trail (var s0 l) = p" using trail_ok_nth(1)[OF ok pn] l by simp
    moreover have "?cur l" using p(3) l by simp
    ultimately show "l \<in> {l. ?cur l} \<inter> set (resolvent s0 i)" using R p(1) by simp
  qed
  also have "card (?f ` ?P) = card ?P"
  proof (rule card_image)
    show "inj_on ?f ?P"
    proof (rule inj_onI)
      fix p q assume "p \<in> ?P" "q \<in> ?P" "?f p = ?f q"
      then have "p < length (trail s0)" "q < length (trail s0)" "vidx (trail s0 ! p) = vidx (trail s0 ! q)"
        using i by auto
      then show "p = q" using trail_ok_inj[OF ok] by blast
    qed
  qed
  finally show ?thesis by (simp add: open_count_def)
qed

lemma resolving_resolved_to:
  assumes q: "resolving s0 s r uip i" and inv1: "walk_inv s0 s1" and ok: "trail_ok s0"
    and i: "i \<le> length (trail s0)"
    and g1: "set (analyzed s) \<subseteq> set (analyzed s1)"
    and g2: "set (analyzed s1) \<subseteq>
               set (analyzed s) \<union> {other \<in> set (literals (clauses s0 r)). other \<noteq> uip}"
    and g3: "\<forall>other \<in> set (literals (clauses s0 r)).
                other \<noteq> uip \<and> v_level (var s0 other) \<noteq> 0 \<longrightarrow> seen (flags s1 other)"
    and fb: "\<forall>other \<in> set (literals (clauses s0 r)). other \<noteq> uip \<longrightarrow> falsified_before s0 i other"
  shows "resolved_to s0 s1 i"
proof -
  let ?n = "length (trail s0)"
  let ?new = "{l \<in> set (literals (clauses s0 r)). l \<noteq> uip \<and> v_level (var s0 l) \<noteq> 0}"
  have j0: "\<forall>l \<in> set (analyzed s). falsified_before s0 ?n l"
    and j1: "set (resolvent s0 i) = {l \<in> set (analyzed s). v_trail (var s0 l) < i} \<union> ?new"
    and j2: "\<forall>q. i < q \<and> q \<le> ?n \<longrightarrow>
         1 < length (filter (\<lambda>l. v_level (var s0 l) = level s0) (resolvent s0 q))"
    and j3: "set (analyzed s) = (\<Union>q \<in> {i<..?n}. set (resolvent s0 q))"
    using q by (simp_all add: resolving_def)
  have an: "\<forall>l \<in> set (analyzed s1). l \<noteq> 0 \<and> v_level (var s0 l) \<noteq> 0 \<and> val s0 l < 0"
    using inv1 by (simp add: walk_inv_def)
  have fbn: "falsified_before s0 ?n l" if "falsified_before s0 i l" for l
    using that i by (auto simp: falsified_before_def)
  have 0: "\<forall>l \<in> set (analyzed s1). falsified_before s0 ?n l"
  proof
    fix l assume l: "l \<in> set (analyzed s1)"
    show "falsified_before s0 ?n l"
    proof (cases "l \<in> set (analyzed s)")
      case True
      then show ?thesis using j0 by blast
    next
      case False
      then have "l \<in> set (literals (clauses s0 r))" "l \<noteq> uip" using g2 l by auto
      then show ?thesis using fb fbn by blast
    qed
  qed
  have new: "l \<in> set (analyzed s1) \<and> v_trail (var s0 l) < i" if "l \<in> ?new" for l
  proof -
    have l: "l \<in> set (literals (clauses s0 r))" "l \<noteq> uip" "v_level (var s0 l) \<noteq> 0"
      using that by simp_all
    have f: "falsified_before s0 i l" using fb l(1,2) by blast
    note d = falsified_beforeD[OF ok f]
    have "seen (flags s1 l)" using g3 l by blast
    then have "vidx l \<in> vidx ` set (analyzed s1)" using walk_inv_seen[OF inv1] by simp
    then obtain l' where l': "l' \<in> set (analyzed s1)" "vidx l = vidx l'" by blast
    have "val s0 l' < 0" using an l'(1) by blast
    then have "l' = l" using falsified_same[OF l'(2)[symmetric] _ d(5)] by simp
    then show ?thesis using l'(1) d(2) by simp
  qed
  have 1: "set (resolvent s0 i) = {l \<in> set (analyzed s1). v_trail (var s0 l) < i}"
  proof (intro equalityI subsetI)
    fix l assume "l \<in> set (resolvent s0 i)"
    then show "l \<in> {l \<in> set (analyzed s1). v_trail (var s0 l) < i}"
      unfolding j1 using g1 new by blast
  next
    fix l assume "l \<in> {l \<in> set (analyzed s1). v_trail (var s0 l) < i}"
    then have l: "l \<in> set (analyzed s1)" "v_trail (var s0 l) < i" by simp_all
    show "l \<in> set (resolvent s0 i)"
    proof (cases "l \<in> set (analyzed s)")
      case True
      then show ?thesis unfolding j1 using l(2) by simp
    next
      case False
      then have "l \<in> set (literals (clauses s0 r))" "l \<noteq> uip" using g2 l(1) by auto
      moreover have "v_level (var s0 l) \<noteq> 0" using an l(1) by blast
      ultimately show ?thesis unfolding j1 by simp
    qed
  qed
  have 3: "set (analyzed s1) = (\<Union>q \<in> {i..?n}. set (resolvent s0 q))"
  proof -
    have "{i..?n} = insert i {i<..?n}" using i by auto
    then have "(\<Union>q \<in> {i..?n}. set (resolvent s0 q)) = set (resolvent s0 i) \<union> set (analyzed s)"
      using j3 by simp
    also have "\<dots> = set (analyzed s1)"
    proof (intro equalityI subsetI)
      fix l assume "l \<in> set (resolvent s0 i) \<union> set (analyzed s)"
      then show "l \<in> set (analyzed s1)" using 1 g1 by auto
    next
      fix l assume l: "l \<in> set (analyzed s1)"
      show "l \<in> set (resolvent s0 i) \<union> set (analyzed s)"
      proof (cases "l \<in> set (analyzed s)")
        case True
        then show ?thesis by simp
      next
        case False
        then have "l \<in> set (literals (clauses s0 r))" "l \<noteq> uip" using g2 l by auto
        moreover have "v_level (var s0 l) \<noteq> 0" using an l by blast
        ultimately show ?thesis unfolding j1 by simp
      qed
    qed
    finally show ?thesis by simp
  qed
  show ?thesis unfolding resolved_to_def using 0 1 j2 3 by blast
qed

lemma resolved_to_found:
  assumes inv: "walk_inv s0 s" and ok: "trail_ok s0" and r: "resolved_to s0 s i"
    and i: "i \<le> length (trail s0)" and ji: "j < i"
    and sj: "seen (flags s (trail s0 ! j))"
    and nk: "\<forall>k. j < k \<and> k < i \<longrightarrow> \<not> seen (flags s (trail s0 ! k))"
  shows "- (trail s0 ! j) \<in> set (resolvent s0 i)"
    "\<forall>q. j < q \<and> q \<le> i \<longrightarrow> resolvent s0 q = resolvent s0 i"
    "set (resolvent s0 i) - {- (trail s0 ! j)} = {l \<in> set (analyzed s). v_trail (var s0 l) < j}"
proof -
  let ?u = "trail s0 ! j"
  have fb: "\<forall>l \<in> set (analyzed s). falsified_before s0 (length (trail s0)) l"
    and R: "set (resolvent s0 i) = {l \<in> set (analyzed s). v_trail (var s0 l) < i}"
    using r by (simp_all add: resolved_to_def)
  have jn: "j < length (trail s0)" using ji i by simp
  have pu: "v_trail (var s0 (- ?u)) = j" using trail_ok_nth(1)[OF ok jn] by simp
  have ua: "- ?u \<in> set (analyzed s)" using seen_analyzed[OF inv ok fb jn] sj by simp
  show 1: "- ?u \<in> set (resolvent s0 i)" unfolding R using ua pu ji by simp
  have ns: "- (trail s0 ! k) \<notin> set (resolvent s0 i)" if "j < k" "k < i" for k
  proof -
    have kn: "k < length (trail s0)" using that(2) i by simp
    have "\<not> seen (flags s (trail s0 ! k))" using nk that by blast
    then have "- (trail s0 ! k) \<notin> set (analyzed s)" using seen_analyzed[OF inv ok fb kn] by simp
    then show ?thesis unfolding R by simp
  qed
  show "\<forall>q. j < q \<and> q \<le> i \<longrightarrow> resolvent s0 q = resolvent s0 i"
  proof (intro allI impI)
    fix q assume q: "j < q \<and> q \<le> i"
    have "\<forall>k. q \<le> k \<and> k < i \<longrightarrow> - (trail s0 ! k) \<notin> set (resolvent s0 i)"
      using ns q by auto
    then show "resolvent s0 q = resolvent s0 i" using resolvent_gap[of q i s0] q i by blast
  qed
  show "set (resolvent s0 i) - {- ?u} = {l \<in> set (analyzed s). v_trail (var s0 l) < j}"
  proof (intro equalityI subsetI)
    fix l assume "l \<in> set (resolvent s0 i) - {- ?u}"
    then have l: "l \<in> set (analyzed s)" "v_trail (var s0 l) < i" "l \<noteq> - ?u" using R by auto
    let ?p = "v_trail (var s0 l)"
    have f: "falsified_before s0 (length (trail s0)) l" using fb l(1) by blast
    note a = analyzed_pos[OF ok f]
    have "?p \<noteq> j" using a(1) l(3) by auto
    moreover have "\<not> (j < ?p)"
    proof
      assume "j < ?p"
      then have "- (trail s0 ! ?p) \<notin> set (resolvent s0 i)" using ns l(2) by blast
      then show False using a(1) l(1,2) R by simp
    qed
    ultimately have "?p < j" by simp
    then show "l \<in> {l \<in> set (analyzed s). v_trail (var s0 l) < j}" using l(1) by simp
  next
    fix l assume "l \<in> {l \<in> set (analyzed s). v_trail (var s0 l) < j}"
    then have l: "l \<in> set (analyzed s)" "v_trail (var s0 l) < j" by simp_all
    have "l \<noteq> - ?u" using l(2) pu by auto
    then show "l \<in> set (resolvent s0 i) - {- ?u}" unfolding R using l ji by simp
  qed
qed

lemma resolved_to_resolving:
  assumes inv: "walk_inv s0 s" and ok: "trail_ok s0" and r: "resolved_to s0 s i"
    and i: "i \<le> length (trail s0)" and ji: "j < i"
    and sj: "seen (flags s (trail s0 ! j))"
    and nk: "\<forall>k. j < k \<and> k < i \<longrightarrow> \<not> seen (flags s (trail s0 ! k))"
    and re: "v_reason (var s0 (trail s0 ! j)) = Some r'"
    and cnt: "1 < open_count s0 s i"
  shows "resolving s0 s r' (trail s0 ! j) j"
proof -
  let ?u = "trail s0 ! j"
  let ?n = "length (trail s0)"
  let ?cur = "\<lambda>l. v_level (var s0 l) = level s0"
  have fb: "\<forall>l \<in> set (analyzed s). falsified_before s0 ?n l"
    and j2: "\<forall>q. i < q \<and> q \<le> ?n \<longrightarrow> 1 < length (filter ?cur (resolvent s0 q))"
    and j3: "set (analyzed s) = (\<Union>q \<in> {i..?n}. set (resolvent s0 q))"
    using r by (simp_all add: resolved_to_def)
  note fo = resolved_to_found[OF inv ok r i ji sj nk]
  have jn: "j < ?n" using ji i by simp
  have "j < Suc j \<and> Suc j \<le> i" using ji by simp
  then have sj': "resolvent s0 (Suc j) = resolvent s0 i" using fo(2) by blast
  have "resolvent s0 j = resolve s0 ?u (resolvent s0 i)"
    using resolvent_step[OF jn] sj' by simp
  then have 1: "set (resolvent s0 j) =
        {l \<in> set (analyzed s). v_trail (var s0 l) < j} \<union>
        {l \<in> set (literals (clauses s0 r')). l \<noteq> ?u \<and> v_level (var s0 l) \<noteq> 0}"
    using set_resolve[OF fo(1) re] fo(3) by simp
  have ci: "length (filter ?cur (resolvent s0 i)) = open_count s0 s i"
    using resolved_to_count[OF inv ok r i] .
  have 2: "\<forall>q. j < q \<and> q \<le> ?n \<longrightarrow> 1 < length (filter ?cur (resolvent s0 q))"
  proof (intro allI impI)
    fix q assume q: "j < q \<and> q \<le> ?n"
    show "1 < length (filter ?cur (resolvent s0 q))"
    proof (cases "q \<le> i")
      case True
      then have "resolvent s0 q = resolvent s0 i" using fo(2) q by blast
      then show ?thesis using ci cnt by simp
    next
      case False
      then show ?thesis using j2 q by simp
    qed
  qed
  have 3: "set (analyzed s) = (\<Union>q \<in> {j<..?n}. set (resolvent s0 q))"
  proof (intro equalityI subsetI)
    fix l assume "l \<in> set (analyzed s)"
    then obtain q where "q \<in> {i..?n}" "l \<in> set (resolvent s0 q)" unfolding j3 by blast
    moreover then have "q \<in> {j<..?n}" using ji by simp
    ultimately show "l \<in> (\<Union>q \<in> {j<..?n}. set (resolvent s0 q))" by blast
  next
    fix l assume "l \<in> (\<Union>q \<in> {j<..?n}. set (resolvent s0 q))"
    then obtain q where q: "j < q" "q \<le> ?n" "l \<in> set (resolvent s0 q)" by auto
    show "l \<in> set (analyzed s)"
    proof (cases "q \<le> i")
      case True
      then have "resolvent s0 q = resolvent s0 i" using fo(2) q(1) by blast
      then have "l \<in> set (resolvent s0 i)" using q(3) by simp
      moreover have "i \<in> {i..?n}" using i by simp
      ultimately show ?thesis unfolding j3 by blast
    next
      case False
      then have "q \<in> {i..?n}" using q(2) by simp
      then show ?thesis unfolding j3 using q(3) by blast
    qed
  qed
  show ?thesis unfolding resolving_def using fb 1 2 3 by blast
qed

lemma resolved_to_first_uip:
  assumes inv: "walk_inv s0 s" and ok: "trail_ok s0" and r: "resolved_to s0 s i"
    and i: "i \<le> length (trail s0)" and ji: "j < i"
    and sj: "seen (flags s (trail s0 ! j))"
    and nk: "\<forall>k. j < k \<and> k < i \<longrightarrow> \<not> seen (flags s (trail s0 ! k))"
    and lj: "v_level (var s0 (trail s0 ! j)) = level s0"
    and cnt: "open_count s0 s i = 1"
  shows "filter (\<lambda>l. v_level (var s0 l) = level s0) (resolvent s0 i) = [- (trail s0 ! j)]"
    "set (resolvent s0 i) =
       {l \<in> set (analyzed s). v_level (var s0 l) < level s0} \<union> {- (trail s0 ! j)}"
proof -
  let ?u = "trail s0 ! j"
  let ?n = "length (trail s0)"
  let ?cur = "\<lambda>l. v_level (var s0 l) = level s0"
  have fb: "\<forall>l \<in> set (analyzed s). falsified_before s0 ?n l"
    and R: "set (resolvent s0 i) = {l \<in> set (analyzed s). v_trail (var s0 l) < i}"
    using r by (simp_all add: resolved_to_def)
  note fo = resolved_to_found[OF inv ok r i ji sj nk]
  have jn: "j < ?n" using ji i by simp
  have "length (filter ?cur (resolvent s0 i)) = 1"
    using resolved_to_count[OF inv ok r i] cnt by simp
  then obtain x where x: "filter ?cur (resolvent s0 i) = [x]"
    by (cases "filter ?cur (resolvent s0 i)") auto
  have "- ?u \<in> set (filter ?cur (resolvent s0 i))" using fo(1) lj by simp
  then have "x = - ?u" unfolding x by simp
  then show 1: "filter ?cur (resolvent s0 i) = [- ?u]" using x by simp
  show "set (resolvent s0 i) = {l \<in> set (analyzed s). v_level (var s0 l) < level s0} \<union> {- ?u}"
  proof (intro equalityI subsetI)
    fix l assume l: "l \<in> set (resolvent s0 i)"
    then have la: "l \<in> set (analyzed s)" using R by simp
    have f: "falsified_before s0 ?n l" using fb la by blast
    note a = analyzed_pos[OF ok f]
    have "var s0 (trail s0 ! v_trail (var s0 l)) = var s0 (- (trail s0 ! v_trail (var s0 l)))"
      by simp
    also have "\<dots> = var s0 l" using a(1) by simp
    finally have le: "v_level (var s0 l) \<le> level s0"
      using trail_ok_nth(4)[OF ok a(2)] by simp
    show "l \<in> {l \<in> set (analyzed s). v_level (var s0 l) < level s0} \<union> {- ?u}"
    proof (cases "?cur l")
      case True
      then have "l \<in> set (filter ?cur (resolvent s0 i))" using l by simp
      then show ?thesis unfolding 1 by simp
    next
      case False
      then show ?thesis using la le by simp
    qed
  next
    fix l assume "l \<in> {l \<in> set (analyzed s). v_level (var s0 l) < level s0} \<union> {- ?u}"
    then consider "l = - ?u" | "l \<in> set (analyzed s)" "v_level (var s0 l) < level s0" by blast
    then show "l \<in> set (resolvent s0 i)"
    proof cases
      case 1
      then show ?thesis using fo(1) by simp
    next
      case 2
      have f: "falsified_before s0 ?n l" using fb 2(1) by blast
      note a = analyzed_pos[OF ok f]
      let ?p = "v_trail (var s0 l)"
      have vl: "var s0 (trail s0 ! ?p) = var s0 l"
      proof -
        have "var s0 (trail s0 ! ?p) = var s0 (- (trail s0 ! ?p))" by simp
        also have "\<dots> = var s0 l" using a(1) by simp
        finally show ?thesis .
      qed
      have "?p < j"
      proof (rule ccontr)
        assume "\<not> ?p < j"
        then have "j \<le> ?p" by simp
        from trail_ok_mono[OF ok this a(2)] have "level s0 \<le> v_level (var s0 l)"
          using lj vl by simp
        then show False using 2(2) by simp
      qed
      then show ?thesis unfolding R using 2(1) ji by simp
    qed
  qed
qed

lemma walk_step:
  assumes "(case reason of Some r \<Rightarrow> analyze_reason uip r (s, opn)
                         | None \<Rightarrow> analyze_literal 0 (s, opn)) = Inr (s1, opn1)"
    and "find_seen s1 i = Some (j, u)"
  shows "walk s reason uip opn i =
           (if opn1 - 1 = 0 then Inr (s1, u)
            else walk s1 (v_reason (var s1 u)) u (opn1 - 1) j)"
  by (subst walk.simps) (simp add: Let_def assms)

lemma walk_first_uip:
  "walk_inv s0 s \<Longrightarrow> trail_ok s0 \<Longrightarrow> reasons_ok s0 \<Longrightarrow> level s0 \<noteq> 0 \<Longrightarrow>
   i \<le> length (trail s0) \<Longrightarrow> opn = int (open_count s0 s i) \<Longrightarrow> reason = Some r \<Longrightarrow>
   (\<forall>other \<in> set (literals (clauses s0 r)). other \<noteq> uip \<longrightarrow> falsified_before s0 i other) \<Longrightarrow>
   (1 \<le> opn \<or> (\<exists>other \<in> set (literals (clauses s0 r)).
                  other \<noteq> uip \<and> v_level (var s0 other) = level s0)) \<Longrightarrow>
   resolving s0 s r uip i \<Longrightarrow>
   \<exists>t j k. walk s reason uip opn i = Inr (t, trail s0 ! j) \<and> walk_inv s0 t \<and> j < k \<and> k \<le> i \<and>
         v_level (var s0 (trail s0 ! j)) = level s0 \<and> seen (flags t (trail s0 ! j)) \<and>
         resolved_to s0 t k \<and>
         filter (\<lambda>l. v_level (var s0 l) = level s0) (resolvent s0 k) = [- (trail s0 ! j)] \<and>
         set (resolvent s0 k) =
           {l \<in> set (analyzed t). v_level (var s0 l) < level s0} \<union> {- (trail s0 ! j)}"
proof (induction s reason uip opn i arbitrary: r rule: walk.induct)
  case (1 s reason uip opn i)
  note inv = "1.prems"(1) and ok = "1.prems"(2) and rs = "1.prems"(3) and l0 = "1.prems"(4)
    and il = "1.prems"(5) and op = "1.prems"(6) and re = "1.prems"(7) and fb = "1.prems"(8)
    and pos = "1.prems"(9) and rg = "1.prems"(10)
  from analyze_reason_count[OF inv ok fb] obtain s1 where
    a: "analyze_reason uip r (s, int (open_count s0 s i)) = Inr (s1, int (open_count s0 s1 i))"
    and inv1: "walk_inv s0 s1" and mono: "\<forall>x. seen (flags s x) \<longrightarrow> seen (flags s1 x)"
    and oth: "\<forall>other \<in> set (literals (clauses s0 r)).
                other \<noteq> uip \<and> v_level (var s0 other) \<noteq> 0 \<longrightarrow> seen (flags s1 other)"
    by blast
  note g = analyze_reason_analyzed[OF a inv]
  have rt: "resolved_to s0 s1 i"
    using resolving_resolved_to[OF rg inv1 ok il g oth fb] .
  have fr1: "scratch_frame s0 s1" using inv1 by (simp add: walk_inv_def)
  note f1 = scratch_frame_fields[OF fr1]
  let ?opn1 = "int (open_count s0 s1 i)"
  have a': "(case reason of None \<Rightarrow> analyze_literal 0 (s, opn)
                          | Some r \<Rightarrow> analyze_reason uip r (s, opn)) = Inr (s1, ?opn1)"
    using a re op by simp
  have c1: "0 < open_count s0 s1 i"
  proof (cases "1 \<le> opn")
    case True
    then have "0 < open_count s0 s i" using op by simp
    from open_count_pos[OF this] obtain p where
      "p < i" "seen (flags s (trail s0 ! p))" "v_level (var s0 (trail s0 ! p)) = level s0"
      by blast
    then show ?thesis using mono open_count_posI[of p i s1 s0] by blast
  next
    case False
    then obtain other where o: "other \<in> set (literals (clauses s0 r))" "other \<noteq> uip"
      "v_level (var s0 other) = level s0"
      using pos by blast
    have fbo: "falsified_before s0 i other" using fb o(1,2) by blast
    note d = falsified_beforeD[OF ok fbo]
    have "seen (flags s1 other)" using oth o l0 by simp
    then have "seen (flags s1 (trail s0 ! v_trail (var s0 other)))"
      using flags_vidx_cong[OF d(4), of s1] by simp
    moreover have "v_level (var s0 (trail s0 ! v_trail (var s0 other))) = level s0"
      using var_vidx_cong[OF d(4), of s0] o(3) by simp
    ultimately show ?thesis using open_count_posI[OF d(2)] by blast
  qed
  from open_count_pos[OF c1] obtain p where
    p: "p < i" "seen (flags s1 (trail s0 ! p))" "v_level (var s0 (trail s0 ! p)) = level s0"
    by blast
  from find_seen_exists[of p i s1] p(1,2) f1(2) obtain j where
    fs: "find_seen s1 i = Some (j, trail s0 ! j)" and pj: "p \<le> j" and ji: "j < i"
    and sj: "seen (flags s1 (trail s0 ! j))"
    and nk: "\<forall>k. j < k \<and> k < i \<longrightarrow> \<not> seen (flags s1 (trail s0 ! k))"
    by auto
  have jn: "j < length (trail s0)" using ji il by simp
  have lj: "v_level (var s0 (trail s0 ! j)) = level s0"
    using trail_ok_mono[OF ok pj jn] trail_ok_nth(4)[OF ok jn] p(3) by simp
  have cj: "open_count s0 s1 i = Suc (open_count s0 s1 j)"
    using open_count_found[OF ji sj lj nk] .
  have w: "walk s reason uip opn i =
           (if ?opn1 - 1 = 0 then Inr (s1, trail s0 ! j)
            else walk s1 (v_reason (var s1 (trail s0 ! j))) (trail s0 ! j) (?opn1 - 1) j)"
    using walk_step[OF _ fs] a' by (simp add: case_option_def[symmetric] split: option.splits)
  show ?case
  proof (cases "?opn1 - 1 = 0")
    case True
    then have w1: "walk s reason uip opn i = Inr (s1, trail s0 ! j)" using w by simp
    have cnt: "open_count s0 s1 i = 1" using True by simp
    note fu = resolved_to_first_uip[OF inv1 ok rt il ji sj nk lj cnt]
    show ?thesis
      using w1 inv1 ji lj sj rt fu by (intro exI[of _ s1] exI[of _ j] exI[of _ i]) simp
  next
    case False
    have o1: "?opn1 - 1 = int (open_count s0 s1 j)" using cj by simp
    then have ge: "1 \<le> ?opn1 - 1" using False by simp
    have cnt: "1 < open_count s0 s1 i" using False c1 by simp
    have vr: "v_reason (var s1 (trail s0 ! j)) = v_reason (var s0 (trail s0 ! j))"
      using f1(19) by simp
    obtain r' where r': "v_reason (var s0 (trail s0 ! j)) = Some r'"
    proof (cases "v_reason (var s0 (trail s0 ! j))")
      case None
      from open_count_decision[OF ok rs jn None lj l0, of s1] o1 False show ?thesis by simp
    next
      case (Some x)
      then show ?thesis using that by blast
    qed
    note fb' = reasons_ok_reason[OF ok rs jn r']
    note rg' = resolved_to_resolving[OF inv1 ok rt il ji sj nk r' cnt]
    let ?cur = "\<lambda>l. v_level (var s0 l) = level s0"
    have "\<exists>t j' k. walk s1 (v_reason (var s1 (trail s0 ! j))) (trail s0 ! j) (?opn1 - 1) j =
              Inr (t, trail s0 ! j') \<and> walk_inv s0 t \<and> j' < k \<and> k \<le> j \<and>
              v_level (var s0 (trail s0 ! j')) = level s0 \<and> seen (flags t (trail s0 ! j')) \<and>
              resolved_to s0 t k \<and>
              filter ?cur (resolvent s0 k) = [- (trail s0 ! j')] \<and>
              set (resolvent s0 k) =
                {l \<in> set (analyzed t). v_level (var s0 l) < level s0} \<union> {- (trail s0 ! j')}"
      using "1.IH"[OF refl a' refl fs refl False inv1 ok rs l0 _ o1 _ fb' _ rg'] jn vr r' ge
      by simp
    then obtain t j' k where
      r: "walk s1 (v_reason (var s1 (trail s0 ! j))) (trail s0 ! j) (?opn1 - 1) j = Inr (t, trail s0 ! j')"
      "walk_inv s0 t" "j' < k" "k \<le> j" "v_level (var s0 (trail s0 ! j')) = level s0"
      "seen (flags t (trail s0 ! j'))" "resolved_to s0 t k"
      "filter ?cur (resolvent s0 k) = [- (trail s0 ! j')]"
      "set (resolvent s0 k) =
         {l \<in> set (analyzed t). v_level (var s0 l) < level s0} \<union> {- (trail s0 ! j')}"
      by blast
    have w2: "walk s reason uip opn i = Inr (t, trail s0 ! j')"
      using w False r(1) by simp
    have ki: "k \<le> i" using r(4) ji by simp
    show ?thesis
      using w2 r(2,3) ki r(5,6,7,8,9) by (intro exI[of _ t] exI[of _ j'] exI[of _ k]) simp
  qed
qed

lemma successively_back:
  "successively E us \<Longrightarrow> us \<noteq> [] \<Longrightarrow> P (last us) \<Longrightarrow>
   (\<And>a b. E a b \<Longrightarrow> a \<in> set us \<Longrightarrow> b \<in> set us \<Longrightarrow> P b \<Longrightarrow> P a) \<Longrightarrow>
   \<forall>u \<in> set us. P u"
proof (induction us)
  case Nil
  then show ?case by simp
next
  case (Cons x xs)
  show ?case
  proof (cases xs)
    case Nil
    then show ?thesis using Cons.prems(3) by simp
  next
    case (Cons y zs)
    have s: "successively E xs" and e: "E x y" using Cons.prems(1) Cons by simp_all
    have ne: "xs \<noteq> []" using Cons by simp
    have l: "P (last xs)" using Cons.prems(3) ne by simp
    have "\<forall>u \<in> set xs. P u"
      using Cons.IH[OF s ne l] Cons.prems(4) by simp
    moreover then have "P x" using Cons.prems(4)[OF e] Cons by simp
    ultimately show ?thesis by simp
  qed
qed

lemma successively_forth:
  "successively E us \<Longrightarrow> us \<noteq> [] \<Longrightarrow> Q (hd us) \<Longrightarrow>
   (\<And>a b. E a b \<Longrightarrow> a \<in> set us \<Longrightarrow> b \<in> set us \<Longrightarrow> Q a \<Longrightarrow> Q b) \<Longrightarrow>
   \<forall>u \<in> set us. Q u"
proof (induction us)
  case Nil
  then show ?case by simp
next
  case (Cons x xs)
  show ?case
  proof (cases xs)
    case Nil
    then show ?thesis using Cons.prems(3) by simp
  next
    case (Cons y zs)
    have s: "successively E xs" and e: "E x y" using Cons.prems(1) Cons by simp_all
    have ne: "xs \<noteq> []" using Cons by simp
    have qx: "Q x" using Cons.prems(3) by simp
    have "Q y" using Cons.prems(4)[OF e _ _ qx] Cons by simp
    then have "Q (hd xs)" using Cons by simp
    then have "\<forall>u \<in> set xs. Q u"
      using Cons.IH[OF s ne] Cons.prems(4) by simp
    then show ?thesis using qx by simp
  qed
qed

lemma set_resolve_keeps: "l \<in> set C \<Longrightarrow> l \<noteq> - u \<Longrightarrow> l \<in> set (resolve s u C)"
  by (simp add: resolve_def split: option.splits)

lemma resolvent_keeps:
  "l \<in> set (resolvent s i) \<Longrightarrow> q \<le> i \<Longrightarrow> i \<le> length (trail s) \<Longrightarrow>
   (\<forall>p. q \<le> p \<and> p < i \<longrightarrow> l \<noteq> - (trail s ! p)) \<Longrightarrow> l \<in> set (resolvent s q)"
proof (induction "i - q" arbitrary: q)
  case 0
  then show ?case by simp
next
  case (Suc d)
  have qi: "q < i" using Suc.hyps(2) by simp
  have "l \<in> set (resolvent s (Suc q))"
    using Suc.hyps(1)[of "Suc q"] Suc.hyps(2) Suc.prems by simp
  moreover have "resolvent s q = resolve s (trail s ! q) (resolvent s (Suc q))"
    using resolvent_step[of q s] qi Suc.prems(3) by simp
  moreover have "l \<noteq> - (trail s ! q)" using Suc.prems(4) qi by simp
  ultimately show ?case by (simp add: set_resolve_keeps)
qed

lemma resolvent_before:
  assumes ok: "trail_ok s" and rs: "reasons_ok s" and c: "conflict s = Some c"
    and cf: "list_all (falsified_before s (length (trail s))) (literals (clauses s c))"
  shows "q \<le> length (trail s) \<Longrightarrow>
   (\<forall>p. q \<le> p \<and> p < length (trail s) \<longrightarrow> v_reason (var s (trail s ! p)) \<noteq> None) \<Longrightarrow>
   \<forall>l \<in> set (resolvent s q). falsified_before s q l"
proof (induction "length (trail s) - q" arbitrary: q)
  case 0
  then have "q = length (trail s)" by simp
  then show ?case using cf by (auto simp: resolvent_top conflict_literals_def c list_all_iff)
next
  case (Suc d)
  let ?u = "trail s ! q"
  let ?R = "resolvent s (Suc q)"
  have qn: "q < length (trail s)" using Suc.hyps(2) by simp
  have ih: "\<forall>l \<in> set ?R. falsified_before s (Suc q) l"
    using Suc.hyps(1)[of "Suc q"] Suc.hyps(2) Suc.prems by simp
  have st: "resolvent s q = resolve s ?u ?R" using resolvent_step[OF qn] .
  obtain r where r: "v_reason (var s ?u) = Some r" using Suc.prems(2) qn by auto
  note fr = reasons_ok_reason[OF ok rs qn r]
  have old: "falsified_before s q l" if "l \<in> set ?R" "l \<noteq> - ?u" for l
  proof -
    have f: "falsified_before s (Suc q) l" using ih that(1) by blast
    then have "v_trail (var s l) \<noteq> q" using that(2) by (auto simp: falsified_before_def)
    then show ?thesis using f qn by (auto simp: falsified_before_def)
  qed
  show ?case
  proof (cases "- ?u \<in> set ?R")
    case True
    show ?thesis unfolding st set_resolve[OF True r] using old fr by auto
  next
    case False
    then show ?thesis unfolding st resolve_skip[OF False] using old by auto
  qed
qed

lemma first_uip_dominates:
  assumes ok: "trail_ok s" and rs: "reasons_ok s" and l0: "level s \<noteq> 0"
    and c: "conflict s = Some c"
    and cf: "list_all (falsified_before s (length (trail s))) (literals (clauses s c))"
    and rt: "resolved_to s t k" and jk: "j < k" and kn: "k \<le> length (trail s)"
    and lj: "v_level (var s (trail s ! j)) = level s"
    and fc: "filter (\<lambda>l. v_level (var s l) = level s) (resolvent s k) = [- (trail s ! j)]"
    and ne: "us \<noteq> []" and tr: "set us \<subseteq> set (trail s)"
    and su: "successively (antecedent s) us"
    and hd: "v_reason (var s (hd us)) = None" "v_level (var s (hd us)) = level s"
    and la: "- last us \<in> set (conflict_literals s)"
  shows "trail s ! j \<in> set us"
proof (rule ccontr)
  assume nu: "trail s ! j \<notin> set us"
  let ?n = "length (trail s)"
  let ?uip = "trail s ! j"
  let ?A = "set (analyzed t)"
  have R: "set (resolvent s k) = {l \<in> ?A. v_trail (var s l) < k}"
    and j3: "?A = (\<Union>q \<in> {k..?n}. set (resolvent s q))"
    using rt by (simp_all add: resolved_to_def)
  have jn: "j < ?n" using jk kn by simp
  have nd: "v_reason (var s (trail s ! p)) \<noteq> None" if p: "k \<le> p" "p < ?n" for p
  proof
    assume n: "v_reason (var s (trail s ! p)) = None"
    have jp: "j \<le> p" using jk p(1) by simp
    have lp: "v_level (var s (trail s ! p)) = level s"
      using trail_ok_mono[OF ok jp p(2)] trail_ok_nth(4)[OF ok p(2)] lj by simp
    have "case v_reason (var s (trail s ! p)) of
              Some r \<Rightarrow>
                list_all (\<lambda>other. other = trail s ! p \<or>
                    falsified_before s (v_trail (var s (trail s ! p))) other)
                  (literals (clauses s r))
            | None \<Rightarrow>
                v_level (var s (trail s ! p)) = 0 \<or>
                list_all (\<lambda>w. v_level (var s w) < v_level (var s (trail s ! p)))
                  (take (v_trail (var s (trail s ! p))) (trail s))"
      using rs p(2) unfolding reasons_ok_def by (simp add: list_all_length)
    then have "list_all (\<lambda>w. v_level (var s w) < level s) (take p (trail s))"
      using n lp l0 trail_ok_nth(1)[OF ok p(2)] by simp
    then have "v_level (var s (trail s ! j)) < level s"
      using jk p by (simp add: list_all_length)
    then show False using lj by simp
  qed
  have rb: "\<forall>l \<in> set (resolvent s q). falsified_before s q l" if "k \<le> q" "q \<le> ?n" for q
    using resolvent_before[OF ok rs c cf that(2)] nd that(1) by simp
  have onl: "\<exists>p < ?n. u = trail s ! p \<and> v_trail (var s u) = p \<and> val s u > 0" if u: "u \<in> set us" for u
  proof -
    have "u \<in> set (trail s)" using u tr by blast
    then obtain p where "p < ?n" "u = trail s ! p" by (auto simp: in_set_conv_nth)
    then show ?thesis using trail_ok_nth(1,3)[OF ok, of p] by auto
  qed
  have star: "k \<le> v_trail (var s u)"
    if u: "u \<in> set us" "v_level (var s u) = level s" "- u \<in> ?A" for u
  proof (rule ccontr)
    assume "\<not> k \<le> v_trail (var s u)"
    then have "- u \<in> set (resolvent s k)" unfolding R using u(3) by simp
    then have "- u \<in> set (filter (\<lambda>l. v_level (var s l) = level s) (resolvent s k))"
      using u(2) by simp
    then have "u = ?uip" unfolding fc by simp
    then show False using nu u(1) by simp
  qed
  have lev: "\<forall>u \<in> set us. v_level (var s u) = level s"
  proof (rule successively_forth[where Q = "\<lambda>u. v_level (var s u) = level s", OF su ne hd(2)])
    fix a b assume e: "antecedent s a b" and a: "a \<in> set us" and b: "b \<in> set us"
      and la: "v_level (var s a) = level s"
    from onl[OF a] obtain pa where pa: "pa < ?n" "a = trail s ! pa" "v_trail (var s a) = pa"
      "val s a > 0" by blast
    from onl[OF b] obtain pb where pb: "pb < ?n" "b = trail s ! pb" "v_trail (var s b) = pb"
      "val s b > 0" by blast
    obtain r where r: "v_reason (var s b) = Some r" "- a \<in> set (literals (clauses s r))"
      using e by (auto simp: antecedent_def split: option.splits)
    have a0: "a \<noteq> 0" using trail_ok_nth(2)[OF ok pa(1)] pa(2) by simp
    have "val s (- a) < 0" using val_minus[OF a0, of s] pa(4) by simp
    then have "- a \<noteq> b" using pb(4) by auto
    then have "falsified_before s pb (- a)"
      using reasons_ok_reason[OF ok rs pb(1)] r pb(2) by auto
    then have "pa < pb" using pa(3) by (simp add: falsified_before_def)
    then have "v_level (var s a) \<le> v_level (var s b)"
      using trail_ok_mono[OF ok _ pb(1), of pa] pa(2) pb(2) by simp
    then show "v_level (var s b) = level s"
      using la trail_ok_nth(4)[OF ok pb(1)] pb(2) by simp
  qed
  have P: "\<forall>u \<in> set us. - u \<in> ?A \<and> k \<le> v_trail (var s u)"
  proof (rule successively_back[where P = "\<lambda>u. - u \<in> ?A \<and> k \<le> v_trail (var s u)", OF su ne])
    have l: "last us \<in> set us" using ne by simp
    have "- last us \<in> set (resolvent s ?n)" using la by (simp add: resolvent_top)
    then have "- last us \<in> ?A" unfolding j3 using kn by auto
    then show "- last us \<in> ?A \<and> k \<le> v_trail (var s (last us))"
      using star[OF l] lev l by simp
  next
    fix a b assume e: "antecedent s a b" and a: "a \<in> set us" and b: "b \<in> set us"
      and Pb: "- b \<in> ?A \<and> k \<le> v_trail (var s b)"
    from onl[OF a] obtain pa where pa: "pa < ?n" "a = trail s ! pa" "v_trail (var s a) = pa"
      "val s a > 0" by blast
    from onl[OF b] obtain pb where pb: "pb < ?n" "b = trail s ! pb" "v_trail (var s b) = pb"
      "val s b > 0" by blast
    obtain r where r: "v_reason (var s b) = Some r" "- a \<in> set (literals (clauses s r))"
      using e by (auto simp: antecedent_def split: option.splits)
    have a0: "a \<noteq> 0" using trail_ok_nth(2)[OF ok pa(1)] pa(2) by simp
    have "val s (- a) < 0" using val_minus[OF a0, of s] pa(4) by simp
    then have ab: "- a \<noteq> b" using pb(4) by auto
    have kb: "k \<le> pb" using Pb pb(3) by simp
    obtain q where q: "k \<le> q" "q \<le> ?n" "- b \<in> set (resolvent s q)"
      using Pb unfolding j3 by auto
    have "falsified_before s q (- b)" using rb[OF q(1,2)] q(3) by blast
    then have bq: "pb < q" using pb(3) by (simp add: falsified_before_def)
    have "- b \<in> set (resolvent s (Suc pb))"
    proof (rule resolvent_keeps[OF q(3) _ q(2)])
      show "Suc pb \<le> q" using bq by simp
      show "\<forall>p. Suc pb \<le> p \<and> p < q \<longrightarrow> - b \<noteq> - (trail s ! p)"
      proof (intro allI impI)
        fix p assume p: "Suc pb \<le> p \<and> p < q"
        then have "p < ?n" using q(2) by simp
        then have "v_trail (var s (trail s ! p)) = p" using trail_ok_nth(1)[OF ok] by simp
        then have "trail s ! p \<noteq> b" using pb(3) p by auto
        then show "- b \<noteq> - (trail s ! p)" by simp
      qed
    qed
    then have "- (trail s ! pb) \<in> set (resolvent s (Suc pb))" using pb(2) by simp
    from set_resolve[OF this, where r = r and s = s] r(1) pb(2)
    have "set (resolve s b (resolvent s (Suc pb))) =
           (set (resolvent s (Suc pb)) - {- b}) \<union>
           {l \<in> set (literals (clauses s r)). l \<noteq> b \<and> v_level (var s l) \<noteq> 0}"
      by simp
    moreover have "resolvent s pb = resolve s b (resolvent s (Suc pb))"
      using resolvent_step[OF pb(1)] pb(2) by simp
    moreover have "v_level (var s (- a)) \<noteq> 0" using lev a l0 by simp
    ultimately have "- a \<in> set (resolvent s pb)" using r(2) ab by simp
    then have "- a \<in> ?A" unfolding j3 using kb pb(1) by auto
    then show "- a \<in> ?A \<and> k \<le> v_trail (var s a)" using star[OF a] lev a by simp
  qed
  have h: "hd us \<in> set us" using ne by simp
  from onl[OF h] obtain p where p: "p < ?n" "hd us = trail s ! p" "v_trail (var s (hd us)) = p"
    by blast
  have "k \<le> p" using P h p(3) by auto
  from nd[OF this p(1)] show False using hd(1) p(2) by simp
qed

lemma forced_after:
  assumes ok: "trail_ok s" and rs: "reasons_ok s" and l0: "level s \<noteq> 0"
    and lj: "v_level (var s (trail s ! j)) = level s" and jp: "j < p"
    and pn: "p < length (trail s)"
  shows "v_reason (var s (trail s ! p)) \<noteq> None"
proof
  assume n: "v_reason (var s (trail s ! p)) = None"
  have "j \<le> p" using jp by simp
  then have lp: "v_level (var s (trail s ! p)) = level s"
    using trail_ok_mono[OF ok _ pn, of j] trail_ok_nth(4)[OF ok pn] lj by simp
  have "case v_reason (var s (trail s ! p)) of
              Some r \<Rightarrow>
                list_all (\<lambda>other. other = trail s ! p \<or>
                    falsified_before s (v_trail (var s (trail s ! p))) other)
                  (literals (clauses s r))
            | None \<Rightarrow>
                v_level (var s (trail s ! p)) = 0 \<or>
                list_all (\<lambda>w. v_level (var s w) < v_level (var s (trail s ! p)))
                  (take (v_trail (var s (trail s ! p))) (trail s))"
    using rs pn unfolding reasons_ok_def by (simp add: list_all_length)
  then have "list_all (\<lambda>w. v_level (var s w) < level s) (take p (trail s))"
    using n lp l0 trail_ok_nth(1)[OF ok pn] by simp
  then have "v_level (var s (trail s ! j)) < level s"
    using jp pn by (simp add: list_all_length)
  then show False using lj by simp
qed

lemma resolvent_path:
  assumes ok: "trail_ok s" and rs: "reasons_ok s" and c: "conflict s = Some c"
    and cf: "list_all (falsified_before s (length (trail s))) (literals (clauses s c))"
  shows "q \<le> length (trail s) \<Longrightarrow> l \<in> set (resolvent s q) \<Longrightarrow>
   \<exists>us. us \<noteq> [] \<and> hd us = - l \<and> set us \<subseteq> set (trail s) \<and>
        successively (antecedent s) us \<and> - last us \<in> set (conflict_literals s) \<and>
        (\<forall>u \<in> set (tl us). q \<le> v_trail (var s u))"
proof (induction "length (trail s) - q" arbitrary: q l)
  case 0
  then have q: "q = length (trail s)" by simp
  then have l: "l \<in> set (conflict_literals s)" using "0.prems"(2) by (simp add: resolvent_top)
  then have "l \<in> set (literals (clauses s c))"
    by (auto simp: conflict_literals_def c)
  then have "falsified_before s (length (trail s)) l" using cf by (simp add: list_all_iff)
  then have "- l \<in> set (trail s)"
    by (metis falsified_before_def minus_equation_iff nth_mem order_less_le_trans)
  then show ?case using l by (intro exI[of _ "[- l]"]) simp
next
  case (Suc d)
  let ?u = "trail s ! q"
  let ?R = "resolvent s (Suc q)"
  have qn: "q < length (trail s)" using Suc.hyps(2) by simp
  have st: "resolvent s q = resolve s ?u ?R" using resolvent_step[OF qn] .
  have ih: "\<exists>us. us \<noteq> [] \<and> hd us = - l' \<and> set us \<subseteq> set (trail s) \<and>
        successively (antecedent s) us \<and> - last us \<in> set (conflict_literals s) \<and>
        (\<forall>u \<in> set (tl us). Suc q \<le> v_trail (var s u))" if "l' \<in> set ?R" for l'
    using Suc.hyps(1)[of "Suc q" l'] Suc.hyps(2) that qn by simp
  show ?case
  proof (cases "l \<in> set ?R")
    case True
    from ih[OF True] obtain us where "us \<noteq> []" "hd us = - l" "set us \<subseteq> set (trail s)"
      "successively (antecedent s) us" "- last us \<in> set (conflict_literals s)"
      "\<forall>u \<in> set (tl us). Suc q \<le> v_trail (var s u)" by blast
    then show ?thesis by (intro exI[of _ us]) auto
  next
    case False
    then have "l \<in> set (resolve s ?u ?R)" using Suc.prems(2) st by simp
    then obtain r where u: "- ?u \<in> set ?R" and r: "v_reason (var s ?u) = Some r"
      and l: "l \<in> set (literals (clauses s r))" "l \<noteq> ?u"
      using False by (auto simp: resolve_def split: if_splits option.splits)
    from ih[OF u] obtain us where us: "us \<noteq> []" "hd us = ?u" "set us \<subseteq> set (trail s)"
      "successively (antecedent s) us" "- last us \<in> set (conflict_literals s)"
      "\<forall>u \<in> set (tl us). Suc q \<le> v_trail (var s u)" by auto
    have "falsified_before s q l" using reasons_ok_reason[OF ok rs qn r] l by blast
    then have lt: "- l \<in> set (trail s)"
      by (metis falsified_before_def minus_equation_iff nth_mem order_less_le_trans)
    have e: "antecedent s (- l) ?u" using r l(1) by (simp add: antecedent_def)
    have pu: "v_trail (var s ?u) = q" using trail_ok_nth(1)[OF ok qn] .
    obtain x xs where x: "us = x # xs" using us(1) by (cases us) auto
    then have hx: "x = ?u" using us(2) by simp
    let ?vs = "- l # us"
    have "successively (antecedent s) ?vs" using us(4) e x hx by simp
    moreover have "\<forall>u \<in> set (tl ?vs). q \<le> v_trail (var s u)"
      using us(6) pu x hx by auto
    moreover have "- last ?vs \<in> set (conflict_literals s)" using us(1,5) by simp
    moreover have "set ?vs \<subseteq> set (trail s)" using us(3) lt by simp
    ultimately show ?thesis by (intro exI[of _ ?vs]) simp
  qed
qed

lemma decision_path:
  assumes ok: "trail_ok s" and rs: "reasons_ok s" and h: "implied_on_level s"
  shows "p < length (trail s) \<Longrightarrow> v_level (var s (trail s ! p)) = level s \<Longrightarrow>
   \<exists>us. us \<noteq> [] \<and> last us = trail s ! p \<and> set us \<subseteq> set (trail s) \<and>
        successively (antecedent s) us \<and> v_reason (var s (hd us)) = None \<and>
        v_level (var s (hd us)) = level s \<and> (\<forall>u \<in> set us. v_trail (var s u) \<le> p)"
proof (induction p rule: less_induct)
  case (less p)
  let ?w = "trail s ! p"
  have pw: "v_trail (var s ?w) = p" using trail_ok_nth(1)[OF ok less.prems(1)] .
  show ?case
  proof (cases "v_reason (var s ?w)")
    case None
    then show ?thesis using less.prems pw by (intro exI[of _ "[?w]"]) simp
  next
    case (Some r)
    have "?w \<in> set (trail s)" using less.prems(1) by simp
    then have "list_ex (\<lambda>a. antecedent s a ?w \<and> v_level (var s a) = level s) (trail s)"
      using h less.prems(2) Some unfolding implied_on_level_def by (auto simp: list_all_iff)
    then obtain a where a: "a \<in> set (trail s)" "antecedent s a ?w" "v_level (var s a) = level s"
      by (auto simp: list_ex_iff)
    obtain pa where pa: "pa < length (trail s)" "a = trail s ! pa"
      using a(1) by (auto simp: in_set_conv_nth)
    have va: "val s a > 0" and a0: "a \<noteq> 0" and ta: "v_trail (var s a) = pa"
      using trail_ok_nth(1,2,3)[OF ok pa(1)] pa(2) by simp_all
    have "val s (- a) < 0" using val_minus[OF a0, of s] va by simp
    moreover have "val s ?w > 0" using trail_ok_nth(3)[OF ok less.prems(1)] .
    ultimately have "- a \<noteq> ?w" by auto
    moreover have "- a \<in> set (literals (clauses s r))"
      using a(2) Some by (simp add: antecedent_def)
    ultimately have "falsified_before s p (- a)"
      using reasons_ok_reason[OF ok rs less.prems(1) Some] by blast
    then have lt: "pa < p" using ta by (simp add: falsified_before_def)
    have "v_level (var s (trail s ! pa)) = level s" using a(3) pa(2) by simp
    from less.IH[OF lt pa(1) this] obtain us where us: "us \<noteq> []" "last us = a"
      "set us \<subseteq> set (trail s)" "successively (antecedent s) us"
      "v_reason (var s (hd us)) = None" "v_level (var s (hd us)) = level s"
      "\<forall>u \<in> set us. v_trail (var s u) \<le> pa"
      using pa(2) by auto
    let ?vs = "us @ [?w]"
    have "successively (antecedent s) ?vs"
      using us(1,2,4) a(2) by (simp add: successively_append_iff)
    moreover have "\<forall>u \<in> set ?vs. v_trail (var s u) \<le> p" using us(7) lt pw by auto
    moreover have "set ?vs \<subseteq> set (trail s)" using us(3) less.prems(1) by simp
    moreover have "hd ?vs = hd us" using us(1) by simp
    ultimately show ?thesis using us(5,6) by (intro exI[of _ ?vs]) simp
  qed
qed

lemma first_uip_latest:
  assumes ok: "trail_ok s" and rs: "reasons_ok s" and l0: "level s \<noteq> 0"
    and c: "conflict s = Some c"
    and cf: "list_all (falsified_before s (length (trail s))) (literals (clauses s c))"
    and rt: "resolved_to s t k" and jk: "j < k" and kn: "k \<le> length (trail s)"
    and lj: "v_level (var s (trail s ! j)) = level s"
    and fc: "filter (\<lambda>l. v_level (var s l) = level s) (resolvent s k) = [- (trail s ! j)]"
    and h: "implied_on_level s"
    and q: "j < q" "q < length (trail s)"
  shows "\<exists>us. us \<noteq> [] \<and> set us \<subseteq> set (trail s) \<and> successively (antecedent s) us \<and>
           v_reason (var s (hd us)) = None \<and> v_level (var s (hd us)) = level s \<and>
           - last us \<in> set (conflict_literals s) \<and> trail s ! q \<notin> set us"
proof -
  let ?n = "length (trail s)"
  let ?cur = "\<lambda>l. v_level (var s l) = level s"
  let ?v = "trail s ! q"
  have pv: "v_trail (var s ?v) = q" using trail_ok_nth(1)[OF ok q(2)] .
  have j2: "\<forall>q. k < q \<and> q \<le> ?n \<longrightarrow> 1 < length (filter ?cur (resolvent s q))"
    using rt by (simp add: resolved_to_def)
  have jn: "j < ?n" using jk kn by simp
  have pj: "v_trail (var s (trail s ! j)) = j" using trail_ok_nth(1)[OF ok jn] .
  have "\<exists>l. l \<in> set (resolvent s (Suc q)) \<and> ?cur l \<and> v_trail (var s l) < q"
  proof (cases "k \<le> q")
    case True
    let ?F = "filter ?cur (resolvent s (Suc q))"
    have "1 < length ?F" using j2 True q(2) by simp
    then obtain a b rest where F: "?F = a # b # rest"
      by (cases ?F; cases "tl ?F") auto
    have "distinct ?F" using distinct_resolvent by simp
    then have ab: "a \<noteq> b" unfolding F by simp
    obtain l where l: "l \<in> set ?F" "l \<noteq> - ?v"
    proof (cases "a = - ?v")
      case True
      then have "b \<noteq> - ?v" using ab by simp
      moreover have "b \<in> set ?F" unfolding F by simp
      ultimately show ?thesis using that by blast
    next
      case False
      moreover have "a \<in> set ?F" unfolding F by simp
      ultimately show ?thesis using that by blast
    qed
    have lr: "l \<in> set (resolvent s (Suc q))" and lc: "?cur l" using l(1) by simp_all
    have nd: "\<forall>p. Suc q \<le> p \<and> p < ?n \<longrightarrow> v_reason (var s (trail s ! p)) \<noteq> None"
      using forced_after[OF ok rs l0 lj] q(1) by simp
    have sq: "Suc q \<le> ?n" using q(2) by simp
    have f: "falsified_before s (Suc q) l" using resolvent_before[OF ok rs c cf sq nd] lr by blast
    have "v_trail (var s l) \<noteq> q"
    proof
      assume "v_trail (var s l) = q"
      then have "?v = - l" using f by (simp add: falsified_before_def)
      then show False using l(2) by simp
    qed
    then have "v_trail (var s l) < q" using f by (simp add: falsified_before_def)
    then show ?thesis using lr lc by blast
  next
    case False
    then have qk: "Suc q \<le> k" by simp
    have "- (trail s ! j) \<in> set (filter ?cur (resolvent s k))" unfolding fc by simp
    then have uk: "- (trail s ! j) \<in> set (resolvent s k)" by simp
    have "- (trail s ! j) \<in> set (resolvent s (Suc q))"
    proof (rule resolvent_keeps[OF uk qk kn])
      show "\<forall>p. Suc q \<le> p \<and> p < k \<longrightarrow> - (trail s ! j) \<noteq> - (trail s ! p)"
      proof (intro allI impI)
        fix p assume p: "Suc q \<le> p \<and> p < k"
        then have "p < ?n" using kn by simp
        then have "v_trail (var s (trail s ! p)) = p" using trail_ok_nth(1)[OF ok] by simp
        then have "trail s ! p \<noteq> trail s ! j" using pj p q(1) by auto
        then show "- (trail s ! j) \<noteq> - (trail s ! p)" by simp
      qed
    qed
    then show ?thesis using lj pj q(1) by (intro exI[of _ "- (trail s ! j)"]) simp
  qed
  then obtain l where l: "l \<in> set (resolvent s (Suc q))" "?cur l" "v_trail (var s l) < q"
    by blast
  have sq: "Suc q \<le> ?n" using q(2) by simp
  from resolvent_path[OF ok rs c cf sq l(1)] obtain vs where vs: "vs \<noteq> []" "hd vs = - l"
    "set vs \<subseteq> set (trail s)" "successively (antecedent s) vs"
    "- last vs \<in> set (conflict_literals s)" "\<forall>u \<in> set (tl vs). Suc q \<le> v_trail (var s u)"
    by blast
  have "- l \<in> set (trail s)" using vs(1,2,3) by (metis hd_in_set subsetD)
  then obtain p where p: "p < ?n" "- l = trail s ! p" by (auto simp: in_set_conv_nth)
  have pp: "p = v_trail (var s l)" using trail_ok_nth(1)[OF ok p(1)] p(2)[symmetric] by simp
  have lp: "v_level (var s (trail s ! p)) = level s" using l(2) p(2)[symmetric] by simp
  from decision_path[OF ok rs h p(1) lp] obtain us where us: "us \<noteq> []" "last us = - l"
    "set us \<subseteq> set (trail s)" "successively (antecedent s) us"
    "v_reason (var s (hd us)) = None" "v_level (var s (hd us)) = level s"
    "\<forall>u \<in> set us. v_trail (var s u) \<le> p"
    using p(2) by auto
  obtain x xs where x: "vs = x # xs" using vs(1) by (cases vs) auto
  then have hx: "x = - l" using vs(2) by simp
  let ?ws = "us @ xs"
  have 1: "?ws \<noteq> []" using us(1) by simp
  have 2: "set ?ws \<subseteq> set (trail s)" using us(3) vs(3) x by auto
  have 3: "successively (antecedent s) ?ws"
  proof (cases xs)
    case Nil
    then show ?thesis using us(4) by simp
  next
    case (Cons y ys)
    then have "antecedent s (- l) y" "successively (antecedent s) xs"
      using vs(4) x hx by simp_all
    then show ?thesis using us(1,2,4) Cons by (simp add: successively_append_iff)
  qed
  have 4: "hd ?ws = hd us" using us(1) by simp
  have 5: "- last ?ws \<in> set (conflict_literals s)"
  proof (cases xs)
    case Nil
    then show ?thesis using vs(5) x hx us(2) by simp
  next
    case (Cons y ys)
    then show ?thesis using vs(5) x by simp
  qed
  have 6: "?v \<notin> set ?ws"
  proof
    assume "?v \<in> set ?ws"
    then consider "?v \<in> set us" | "?v \<in> set xs" by auto
    then show False
    proof cases
      case 1
      then have "q \<le> p" using us(7) pv by auto
      then show False using pp l(3) by simp
    next
      case 2
      then have "Suc q \<le> q" using vs(6) x pv by auto
      then show False by simp
    qed
  qed
  show ?thesis using 1 2 3 4 5 6 us(5,6) by (intro exI[of _ ?ws]) simp
qed

lemma open_count_clean: "scratch_clean s \<Longrightarrow> open_count s s i = 0"
  by (simp add: open_count_def scratch_clean_def flags_def)

lemma scenario_trail_ok: "trail_ok scenario" "reasons_ok scenario" "conflict_ok scenario"
  by (simp_all add: trail_ok_def reasons_ok_def conflict_ok_def falsified_before_def
      scenario_def blank_def var_def val_def vidx_def)

lemma resolving_start:
  assumes cl: "scratch_clean s" and c: "conflict s = Some c"
    and cf: "list_all (falsified_before s (length (trail s))) (literals (clauses s c))"
  shows "resolving s s c 0 (length (trail s))"
proof -
  have a: "analyzed s = []" using cl by (simp add: scratch_clean_def)
  have n0: "\<forall>l \<in> set (literals (clauses s c)). l \<noteq> 0"
    using cf by (simp add: list_all_iff falsified_before_def)
  have "set (resolvent s (length (trail s))) =
          {l \<in> set (literals (clauses s c)). l \<noteq> 0 \<and> v_level (var s l) \<noteq> 0}"
    using n0 by (auto simp: resolvent_top conflict_literals_def c)
  then show ?thesis unfolding resolving_def a by simp
qed

lemma detour_ok:
  "level detour \<noteq> 0" "scratch_clean detour" "trail_ok detour" "reasons_ok detour"
  "conflict_ok detour"
  by (simp_all add: scratch_clean_def trail_ok_def reasons_ok_def conflict_ok_def
      falsified_before_def detour_def blank_def unset_flags_def var_def val_def vidx_def)

lemma detour_first_uip:
  "first_uip_clause detour = Inr (fst (projr (first_uip_clause detour)), 3)"
  "clause (fst (projr (first_uip_clause detour))) = [- 1, - 3]"
  by (simp_all add: eval_defs detour_def)

lemma scenario_clause: "clause (fst (projr (first_uip_clause scenario))) = [- 1, - 2]"
  by (simp add: eval_defs)

lemmas resolvent_defs = resolvent_def resolve_def conflict_literals_def var_def vidx_def

lemma scenario_resolvent:
  "resolvent scenario 3 = [- 2, - 3]" "resolvent scenario 2 = [- 1, - 2]"
  by (simp_all add: resolvent_defs scenario_def blank_def)

lemma detour_resolvent: "resolvent detour 4 = [- 1, - 3]"
  by (simp add: resolvent_defs detour_def blank_def)

lemma detour_implied: "implied_on_level detour"
  by (simp add: implied_on_level_def antecedent_def var_def vidx_def detour_def blank_def)

lemma detour_path:
  "[2, 3] \<noteq> [] \<and> set [2, 3] \<subseteq> set (trail detour) \<and>
   successively (antecedent detour) [2, 3] \<and> v_reason (var detour (hd [2, 3])) = None \<and>
   v_level (var detour (hd [2, 3])) = level detour \<and>
   - last [2, 3] \<in> set (conflict_literals detour)"
  by (simp add: antecedent_def conflict_literals_def var_def vidx_def detour_def blank_def)

section \<open>The claims\<close>

text \<open>C1.  In a state above level 0 with a clean scratch state, a well-formed trail, reasons
  that were falsified before the literal they forced, decisions that open their level and a
  conflict that is falsified and has a literal of the current level, the walk returns, with
  a trail literal of the current level that is marked seen.  Its clause is the literals of
  the analyzed batch from levels below the current one, in the order of the walk, followed
  by the negation of that literal.  The clause is the first UIP clause of trail-ordered
  resolution and the literal the first UIP: at a position \<open>k\<close> of the trail above the
  literal, the clause has exactly the literals of the resolvent of the conflict with the
  reasons of the trail literals from \<open>k\<close> on; the negated literal is the only literal of the
  current level in this resolvent; and every resolvent before it, from a position above
  \<open>k\<close>, has more than one literal of the current level.  The analyzed batch is the literals
  of these resolvents from \<open>k\<close> up to the conflict.  The literal is a unique implication
  point: every path of the implication graph from the decision of the current level to a
  literal that the conflict negates passes through it.  It is the first one, seen from the
  conflict: when every forced literal of the current level has an antecedent of that
  level, each trail literal after it is avoided by some such path.  The clause passes the
  check of the learned clause; every literal is falsified under the unchanged assignment;
  no two literals share a variable; the negated UIP is on the current level and every
  other literal on a lower level that is not 0.\<close>

theorem first_uip_clause_correct:
  assumes "level s \<noteq> 0" and "scratch_clean s" and "trail_ok s" and "reasons_ok s"
    and "conflict_ok s"
  shows "\<exists>s1 uip k. first_uip_clause s = Inr (s1, uip) \<and> check_learned_clause s1 = Inr s1 \<and>
     trail s1 = trail s \<and> vals s1 = vals s \<and>
     uip \<in> set (trail s) \<and> v_level (var s uip) = level s \<and> seen (flags s1 uip) \<and>
     clause s1 = filter (\<lambda>lit. v_level (var s lit) < level s) (analyzed s1) @ [- uip] \<and>
     v_trail (var s uip) < k \<and> k \<le> length (trail s) \<and>
     set (clause s1) = set (resolvent s k) \<and>
     filter (\<lambda>lit. v_level (var s lit) = level s) (resolvent s k) = [- uip] \<and>
     (\<forall>q. k < q \<and> q \<le> length (trail s) \<longrightarrow>
        1 < length (filter (\<lambda>lit. v_level (var s lit) = level s) (resolvent s q))) \<and>
     set (analyzed s1) = (\<Union>q \<in> {k..length (trail s)}. set (resolvent s q)) \<and>
     (\<forall>us. us \<noteq> [] \<and> set us \<subseteq> set (trail s) \<and> successively (antecedent s) us \<and>
           v_reason (var s (hd us)) = None \<and> v_level (var s (hd us)) = level s \<and>
           - last us \<in> set (conflict_literals s) \<longrightarrow> uip \<in> set us) \<and>
     (implied_on_level s \<longrightarrow>
        (\<forall>q. v_trail (var s uip) < q \<and> q < length (trail s) \<longrightarrow>
           (\<exists>us. us \<noteq> [] \<and> set us \<subseteq> set (trail s) \<and> successively (antecedent s) us \<and>
                 v_reason (var s (hd us)) = None \<and> v_level (var s (hd us)) = level s \<and>
                 - last us \<in> set (conflict_literals s) \<and> trail s ! q \<notin> set us))) \<and>
     list_all (\<lambda>lit. val s lit < 0) (clause s1) \<and> distinct (map vidx (clause s1)) \<and>
     list_all (\<lambda>lit. 0 < v_level (var s lit) \<and> v_level (var s lit) < level s)
       (butlast (clause s1)) \<and>
     v_level (var s (last (clause s1))) = level s"
proof -
  obtain c where c: "conflict s = Some c"
    and cf: "list_all (falsified_before s (length (trail s))) (literals (clauses s c))"
    and cl: "list_ex (\<lambda>lit. v_level (var s lit) = level s) (literals (clauses s c))"
    using assms(5) unfolding conflict_ok_def by (cases "conflict s") auto
  have fb: "\<forall>other \<in> set (literals (clauses s c)).
              other \<noteq> 0 \<longrightarrow> falsified_before s (length (trail s)) other"
    using cf by (simp add: list_all_iff)
  have "\<exists>other \<in> set (literals (clauses s c)). other \<noteq> 0 \<and> v_level (var s other) = level s"
    using cl cf by (auto simp: list_ex_iff list_all_iff falsified_before_def)
  then have pos: "1 \<le> (0::int) \<or> (\<exists>other \<in> set (literals (clauses s c)).
                  other \<noteq> 0 \<and> v_level (var s other) = level s)"
    by blast
  have oc: "(0::int) = int (open_count s s (length (trail s)))"
    using open_count_clean[OF assms(2)] by simp
  note rg = resolving_start[OF assms(2) c cf]
  from walk_first_uip[OF walk_inv_start[OF assms(2)] assms(3,4,1) le_refl oc c fb pos rg]
  obtain t j k where w: "walk s (conflict s) 0 0 (length (trail s)) = Inr (t, trail s ! j)"
    and inv: "walk_inv s t" and jk: "j < k" and kn: "k \<le> length (trail s)"
    and lj: "v_level (var s (trail s ! j)) = level s"
    and sj: "seen (flags t (trail s ! j))"
    and rt: "resolved_to s t k"
    and fc: "filter (\<lambda>l. v_level (var s l) = level s) (resolvent s k) = [- (trail s ! j)]"
    and sr: "set (resolvent s k) =
               {l \<in> set (analyzed t). v_level (var s l) < level s} \<union> {- (trail s ! j)}"
    by blast
  have j: "j < length (trail s)" using jk kn by simp
  let ?uip = "trail s ! j"
  let ?low = "filter (\<lambda>lit. v_level (var s lit) < level s) (analyzed t)"
  let ?s1 = "t\<lparr>clause := clause t @ [- ?uip]\<rparr>"
  have fr: "scratch_frame s t" using inv by (simp add: walk_inv_def)
  note f = scratch_frame_fields[OF fr]
  have 1: "first_uip_clause s = Inr (?s1, ?uip)" by (simp add: first_uip_clause_def w)
  have ct: "clause t = ?low" using inv by (simp add: walk_inv_def)
  have an: "\<forall>lit \<in> set (analyzed t). lit \<noteq> 0 \<and> v_level (var s lit) \<noteq> 0 \<and> val s lit < 0"
    using inv by (simp add: walk_inv_def)
  have da: "distinct (map vidx (analyzed t))" using inv by (simp add: walk_inv_def)
  have u0: "?uip \<noteq> 0" and uv: "val s ?uip > 0" using trail_ok_nth(2,3)[OF assms(3) j] by simp_all
  have nv: "val s (- ?uip) < 0" using val_minus[OF u0, of s] uv by simp
  have cl1: "clause ?s1 = ?low @ [- ?uip]" using ct by simp
  have 4: "list_all (\<lambda>lit. val s lit < 0) (clause ?s1)"
    unfolding cl1 using an nv by (simp add: list_all_iff)
  have nin: "vidx ?uip \<notin> vidx ` set ?low"
  proof
    assume "vidx ?uip \<in> vidx ` set ?low"
    then obtain lit where l: "lit \<in> set ?low" "vidx ?uip = vidx lit" by blast
    then have "v_level (var s lit) < level s" by simp
    moreover have "var s ?uip = var s lit" using var_vidx_cong[OF l(2)] .
    ultimately show False using lj by simp
  qed
  have 5: "distinct (map vidx (clause ?s1))"
    unfolding cl1 using distinct_map_filter[OF da] nin by simp
  have "val ?s1 = val t" by (simp add: val_def fun_eq_iff)
  then have v1: "val ?s1 = val s" using f(20) by simp
  have 2: "check_learned_clause ?s1 = Inr ?s1"
    unfolding check_learned_clause_def v1 using 4 5 by simp
  have 6: "list_all (\<lambda>lit. 0 < v_level (var s lit) \<and> v_level (var s lit) < level s)
       (butlast (clause ?s1))"
    unfolding cl1 using an by (simp add: list_all_iff)
  have 7: "v_level (var s (last (clause ?s1))) = level s" unfolding cl1 using lj by simp
  have 8: "trail ?s1 = trail s" "vals ?s1 = vals s" using f(2,3) by simp_all
  have 9: "?uip \<in> set (trail s)" using j by simp
  have 10: "clause ?s1 = filter (\<lambda>lit. v_level (var s lit) < level s) (analyzed ?s1) @ [- ?uip]"
    using cl1 by simp
  have 11: "seen (flags ?s1 ?uip)" using sj by (simp add: flags_def)
  have 12: "v_trail (var s ?uip) < k" using trail_ok_nth(1)[OF assms(3) j] jk by simp
  have 13: "set (clause ?s1) = set (resolvent s k)" unfolding cl1 sr by auto
  have 14: "\<forall>q. k < q \<and> q \<le> length (trail s) \<longrightarrow>
        1 < length (filter (\<lambda>lit. v_level (var s lit) = level s) (resolvent s q))"
    using rt by (simp add: resolved_to_def)
  have 15: "set (analyzed ?s1) = (\<Union>q \<in> {k..length (trail s)}. set (resolvent s q))"
    using rt by (simp add: resolved_to_def)
  have 16: "\<forall>us. us \<noteq> [] \<and> set us \<subseteq> set (trail s) \<and> successively (antecedent s) us \<and>
           v_reason (var s (hd us)) = None \<and> v_level (var s (hd us)) = level s \<and>
           - last us \<in> set (conflict_literals s) \<longrightarrow> ?uip \<in> set us"
    using first_uip_dominates[OF assms(3,4,1) c cf rt jk kn lj fc] by blast
  have pj: "v_trail (var s ?uip) = j" using trail_ok_nth(1)[OF assms(3) j] .
  have 17: "implied_on_level s \<longrightarrow>
        (\<forall>q. v_trail (var s ?uip) < q \<and> q < length (trail s) \<longrightarrow>
           (\<exists>us. us \<noteq> [] \<and> set us \<subseteq> set (trail s) \<and> successively (antecedent s) us \<and>
                 v_reason (var s (hd us)) = None \<and> v_level (var s (hd us)) = level s \<and>
                 - last us \<in> set (conflict_literals s) \<and> trail s ! q \<notin> set us))"
    unfolding pj using first_uip_latest[OF assms(3,4,1) c cf rt jk kn lj fc] by blast
  show ?thesis
    apply (rule exI[of _ ?s1], rule exI[of _ ?uip], rule exI[of _ k])
    using 1 2 8 9 lj 11 10 12 kn 13 fc 14 15 16 17 4 5 6 7 by blast
qed

theorem first_uip_clause_correct_witness:
  "level scenario \<noteq> 0 \<and> scratch_clean scenario \<and> trail_ok scenario \<and> reasons_ok scenario \<and>
   conflict_ok scenario \<and>
   first_uip_clause scenario = Inr (fst (projr (first_uip_clause scenario)), 2) \<and>
   clause (fst (projr (first_uip_clause scenario))) = [- 1, - 2] \<and>
   resolvent scenario 3 = [- 2, - 3] \<and> resolvent scenario 2 = [- 1, - 2] \<and>
   check_learned_clause (fst (projr (first_uip_clause scenario))) =
     Inr (fst (projr (first_uip_clause scenario))) \<and>
   level detour \<noteq> 0 \<and> scratch_clean detour \<and> trail_ok detour \<and> reasons_ok detour \<and>
   conflict_ok detour \<and>
   first_uip_clause detour = Inr (fst (projr (first_uip_clause detour)), 3) \<and>
   clause (fst (projr (first_uip_clause detour))) = [- 1, - 3] \<and>
   resolvent detour 4 = [- 1, - 3] \<and>
   check_learned_clause (fst (projr (first_uip_clause detour))) =
     Inr (fst (projr (first_uip_clause detour))) \<and>
   [2, 3] \<noteq> [] \<and> set [2, 3] \<subseteq> set (trail detour) \<and>
   successively (antecedent detour) [2, 3] \<and> v_reason (var detour (hd [2, 3])) = None \<and>
   v_level (var detour (hd [2, 3])) = level detour \<and>
   - last [2, 3] \<in> set (conflict_literals detour) \<and> implied_on_level detour"
proof -
  have l: "level scenario \<noteq> 0" by (simp add: scenario_def)
  from first_uip_clause_correct[OF l scenario_clean scenario_trail_ok]
  obtain s1 uip where
    "first_uip_clause scenario = Inr (s1, uip)" "check_learned_clause s1 = Inr s1"
    by blast
  then have 1: "check_learned_clause (fst (projr (first_uip_clause scenario))) =
     Inr (fst (projr (first_uip_clause scenario)))"
    by simp
  from first_uip_clause_correct[OF detour_ok]
  obtain s2 uip2 where
    "first_uip_clause detour = Inr (s2, uip2)" "check_learned_clause s2 = Inr s2"
    by blast
  then have 2: "check_learned_clause (fst (projr (first_uip_clause detour))) =
     Inr (fst (projr (first_uip_clause detour)))"
    by simp
  show ?thesis
    using l scenario_clean scenario_trail_ok scenario_first_uip scenario_clause
      scenario_resolvent 1 detour_ok detour_first_uip detour_resolvent 2 detour_path detour_implied
    by simp
qed
text \<open>C2.  With a conflict at decision level 0 (and the formula not yet known to be
  unsatisfiable, as \<^verbatim>\<open>learn_empty_clause\<close> asserts), \<^verbatim>\<open>analyze\<close> returns the state in
  which the empty clause is traced to the proof (when one is attached) and the unsat flag is
  set; nothing else of the state changes, so no step of the analysis has run.\<close>

theorem analyze_level_zero:
  assumes "conflict s \<noteq> None" and "level s = 0" and "\<not> unsat s"
  shows "analyze minimize_clause s =
           Inr (s\<lparr>proof_log := map_option trace_empty_clause (proof_log s), unsat := True\<rparr>)"
  using assms by (simp add: analyze_def learn_empty_clause_def)

theorem analyze_level_zero_witness:
  "conflict (blank\<lparr>conflict := Some 1, proof_log := Some []\<rparr>) \<noteq> None \<and>
   level (blank\<lparr>conflict := Some 1, proof_log := Some []\<rparr>) = 0 \<and>
   \<not> unsat (blank\<lparr>conflict := Some 1, proof_log := Some []\<rparr>) \<and>
   analyze clause (blank\<lparr>conflict := Some 1, proof_log := Some []\<rparr>) =
     Inr (blank\<lparr>conflict := Some 1, proof_log := Some [TraceEmptyClause], unsat := True\<rparr>)"
  using analyze_level_zero[of "blank\<lparr>conflict := Some 1, proof_log := Some []\<rparr>" clause]
  by (simp add: blank_def trace_empty_clause_def)

text \<open>C3.  When the clause left by the minimization has more than one literal, a completed
  analysis has sorted it by descending level and, on a level, by descending trail position;
  a new redundant clause object holds the sorted literals and the glue (the number of
  levels of the walk); the jump level is the level of the second literal; the jump average
  is updated with it; the trail is the prefix of the old trail up to the jump level,
  followed by the negated first UIP, which is assigned on the jump level with the new clause
  as its reason.\<close>

theorem analyze_driving:
  assumes "level s \<noteq> 0" and "analyze_prefix minimize_clause s = Inr (s4, uip, g, sz)"
    and "sz > 1" and "analyze minimize_clause s = Inr s'"
  shows "sz = int (length (clause s4)) \<and> g = int (length (levels s4)) \<and>
         trail s4 = trail s \<and> var s4 = var s \<and>
         mset (sort_by (trail_larger s4) (clause s4)) = mset (clause s4) \<and>
         sorted_wrt (level_recency_ge s4) (sort_by (trail_larger s4) (clause s4)) \<and>
         clauses s' (num_clauses s4) =
           \<lparr>literals = sort_by (trail_larger s4) (clause s4), redundant = True, hbr = False,
            used = False, have_analyzed = False, c_analyzed = 0, glue = g\<rparr> \<and>
         num_clauses s' = num_clauses s4 + 1 \<and>
         jump_avg s' = jump_avg s @ [int (jump_level s4)] \<and>
         level s' = jump_level s4 \<and>
         trail s' = takeWhile (\<lambda>lit. v_level (var s lit) \<le> jump_level s4) (trail s) @ [- uip] \<and>
         var s' (- uip) =
           \<lparr>v_level = jump_level s4,
            v_trail = length (takeWhile (\<lambda>lit. v_level (var s lit) \<le> jump_level s4) (trail s)),
            v_reason = Some (num_clauses s4)\<rparr> \<and>
         val s' (- uip) > 0"
proof -
  note f = analyze_prefix_frame[OF assms(2)]
  from analyze_chain[OF assms(1,2,4)] obtain s5 where
    b: "backjump uip g sz s4 = Inr s5" and c: "cleanup s5 = Inr s'"
    by blast
  note cf = cleanup_fields[OF c]
  have s5: "s5 = s4\<lparr>clause := sort_by (trail_larger s4) (clause s4),
            clauses := (clauses s4)(num_clauses s4 :=
               \<lparr>literals = sort_by (trail_larger s4) (clause s4), redundant = True, hbr = False,
                used = False, have_analyzed = False, c_analyzed = 0, glue = g\<rparr>),
            num_clauses := num_clauses s4 + 1,
            jump_avg := jump_avg s4 @ [int (v_level (var s4 (sort_by (trail_larger s4) (clause s4) ! 1)))],
            trail := takeWhile (\<lambda>lit. v_level (var s4 lit)
                        \<le> v_level (var s4 (sort_by (trail_larger s4) (clause s4) ! 1))) (trail s4) @ [- uip],
            vals := (\<lambda>idx. if idx \<in> vidx ` set (drop (length (takeWhile (\<lambda>lit. v_level (var s4 lit)
                        \<le> v_level (var s4 (sort_by (trail_larger s4) (clause s4) ! 1))) (trail s4))) (trail s4))
                      then 0 else vals s4 idx)(vidx (- uip) := (if - uip < 0 then - 1 else 1)),
            control := (\<lambda>l. if l > v_level (var s4 (sort_by (trail_larger s4) (clause s4) ! 1))
                             then level_reset else control s4 l),
            level := v_level (var s4 (sort_by (trail_larger s4) (clause s4) ! 1)),
            vtab := (vtab s4)(vidx (- uip) :=
               \<lparr>v_level = v_level (var s4 (sort_by (trail_larger s4) (clause s4) ! 1)),
                v_trail = length (takeWhile (\<lambda>lit. v_level (var s4 lit)
                        \<le> v_level (var s4 (sort_by (trail_larger s4) (clause s4) ! 1))) (trail s4)),
                v_reason = Some (num_clauses s4)\<rparr>)\<rparr>"
    using b backjump_driving[OF assms(3), of uip g s4] by simp
  have 1: "clauses s' (num_clauses s4) =
           \<lparr>literals = sort_by (trail_larger s4) (clause s4), redundant = True, hbr = False,
            used = False, have_analyzed = False, c_analyzed = 0, glue = g\<rparr>"
    unfolding cf(5) by (subst s5) simp
  have 2: "num_clauses s' = num_clauses s4 + 1" unfolding cf(6) by (subst s5) simp
  have 3: "jump_avg s' = jump_avg s @ [int (jump_level s4)]"
    unfolding cf(7) jump_level_def f(11)[symmetric] by (subst s5) simp
  have 4: "level s' = jump_level s4" unfolding cf(1) jump_level_def by (subst s5) simp
  have 5: "trail s' = takeWhile (\<lambda>lit. v_level (var s lit) \<le> jump_level s4) (trail s) @ [- uip]"
    unfolding cf(2) jump_level_def f(2)[symmetric] f(12)[symmetric] by (subst s5) simp
  have 6: "var s' (- uip) =
           \<lparr>v_level = jump_level s4,
            v_trail = length (takeWhile (\<lambda>lit. v_level (var s lit) \<le> jump_level s4) (trail s)),
            v_reason = Some (num_clauses s4)\<rparr>"
    unfolding cf(13) jump_level_def f(2)[symmetric] f(12)[symmetric] by (subst s5) (simp add: var_def)
  have 7: "val s' (- uip) > 0"
    unfolding cf(14) by (subst s5) (simp add: val_def)
  show ?thesis using f(15,14,2,12) sorted_trail_larger 1 2 3 4 5 6 7 by simp
qed

theorem analyze_driving_witness:
  "level scenario \<noteq> 0 \<and>
   analyze_prefix clause scenario =
     Inr (fst (projr (analyze_prefix clause scenario)), 2, 2, 2) \<and>
   (1::int) < 2 \<and>
   analyze clause scenario = Inr (projr (analyze clause scenario)) \<and>
   sort_by (trail_larger (fst (projr (analyze_prefix clause scenario))))
     (clause (fst (projr (analyze_prefix clause scenario)))) = [- 2, - 1] \<and>
   jump_level (fst (projr (analyze_prefix clause scenario))) = 1 \<and>
   level (projr (analyze clause scenario)) = 1 \<and>
   trail (projr (analyze clause scenario)) = [1, - 2] \<and>
   jump_avg (projr (analyze clause scenario)) = [1] \<and>
   clauses (projr (analyze clause scenario)) 3 =
     \<lparr>literals = [- 2, - 1], redundant = True, hbr = False, used = False,
      have_analyzed = False, c_analyzed = 0, glue = 2\<rparr> \<and>
   var (projr (analyze clause scenario)) (- 2) = \<lparr>v_level = 1, v_trail = 1, v_reason = Some 3\<rparr>"
proof -
  have l: "level scenario \<noteq> 0" by (simp add: scenario_def)
  have c: "sort_by (trail_larger (fst (projr (analyze_prefix clause scenario))))
     (clause (fst (projr (analyze_prefix clause scenario)))) = [- 2, - 1]"
    by (simp add: eval_defs)
  have j: "jump_level (fst (projr (analyze_prefix clause scenario))) = 1"
    unfolding jump_level_def c by (simp add: eval_defs)
  have n: "num_clauses (fst (projr (analyze_prefix clause scenario))) = 3"
    by (simp add: eval_defs)
  have t: "takeWhile (\<lambda>lit. v_level (var scenario lit) \<le> 1) (trail scenario) = [1]"
    by (simp add: scenario_def blank_def var_def vidx_def)
  have v: "jump_avg scenario = []" by (simp add: scenario_def blank_def)
  show ?thesis
    using analyze_driving[OF l scenario_prefix _ scenario_analyze] l scenario_prefix
      scenario_analyze
    unfolding c j n t v by simp
qed

text \<open>C4.  When the clause left by the minimization is a unit, a completed analysis has created
  no clause object, set the iterating flag, updated the jump average with 0, cut the trail
  back to the literals of level 0 and appended the negated first UIP, assigned at level 0
  without a reason; the variable of the UIP, active before, is fixed, the unit is counted
  and traced to the proof, and no variable that was fixed before has lost that status.\<close>

theorem analyze_unit:
  assumes "level s \<noteq> 0" and "analyze_prefix minimize_clause s = Inr (s4, uip, g, sz)"
    and "sz = 1" and "analyze minimize_clause s = Inr s'"
  shows "sz = int (length (clause s4)) \<and>
         clauses s' = clauses s4 \<and> num_clauses s' = num_clauses s \<and>
         iterating s' \<and>
         jump_avg s' = jump_avg s @ [0] \<and>
         level s' = 0 \<and>
         trail s' = takeWhile (\<lambda>lit. v_level (var s lit) \<le> 0) (trail s) @ [- uip] \<and>
         var s' (- uip) =
           \<lparr>v_level = 0,
            v_trail = length (takeWhile (\<lambda>lit. v_level (var s lit) \<le> 0) (trail s)),
            v_reason = None\<rparr> \<and>
         val s' (- uip) > 0 \<and>
         active (flags s (- uip)) \<and> status (flags s' (- uip)) = FIXED \<and>
         stats_fixed (stats s') = stats_fixed (stats s) + 1 \<and>
         proof_log s' = map_option (trace_unit_clause (- uip)) (proof_log s) \<and>
         (\<forall>idx. status (ftab s idx) = FIXED \<longrightarrow> status (ftab s' idx) = FIXED)"
proof -
  note f = analyze_prefix_frame[OF assms(2)]
  from analyze_chain[OF assms(1,2,4)] obtain s5 where
    b: "backjump uip g sz s4 = Inr s5" and c: "cleanup s5 = Inr s'"
    by blast
  note cf = cleanup_fields[OF c]
  have n: "\<not> sz > 1" using assms(3) by simp
  have a4: "active (flags s4 (- uip))"
    using b unfolding backjump_unit[OF n] by (auto split: if_splits)
  have s5: "s5 = s4\<lparr>iterating := True,
            jump_avg := jump_avg s4 @ [0],
            trail := takeWhile (\<lambda>lit. v_level (var s4 lit) \<le> 0) (trail s4) @ [- uip],
            vals := (\<lambda>idx. if idx \<in> vidx ` set (drop (length (takeWhile (\<lambda>lit. v_level (var s4 lit)
                        \<le> 0) (trail s4))) (trail s4))
                      then 0 else vals s4 idx)(vidx (- uip) := (if - uip < 0 then - 1 else 1)),
            control := (\<lambda>l. if l > 0 then level_reset else control s4 l),
            level := 0,
            vtab := (vtab s4)(vidx (- uip) :=
               \<lparr>v_level = 0,
                v_trail = length (takeWhile (\<lambda>lit. v_level (var s4 lit) \<le> 0) (trail s4)),
                v_reason = None\<rparr>),
            proof_log := map_option (trace_unit_clause (- uip)) (proof_log s4),
            ftab := (ftab s4)(vidx (- uip) := (ftab s4 (vidx (- uip)))\<lparr>status := FIXED\<rparr>),
            stats := (stats s4)\<lparr>stats_fixed := stats_fixed (stats s4) + 1\<rparr>\<rparr>"
    using b a4 unfolding backjump_unit[OF n] by simp
  have a: "active (flags s (- uip))"
  proof -
    obtain bb where "ftab s4 (vidx (- uip)) = (ftab s (vidx (- uip)))\<lparr>seen := bb\<rparr>"
      using f(18) by blast
    then show ?thesis using a4 by (simp add: active_def flags_def)
  qed
  have 1: "clauses s' = clauses s4" unfolding cf(5) by (subst s5) simp
  have 2: "num_clauses s' = num_clauses s" unfolding cf(6) f(7)[symmetric] by (subst s5) simp
  have 3: "iterating s'" unfolding cf(8) by (subst s5) simp
  have 4: "jump_avg s' = jump_avg s @ [0]" unfolding cf(7) f(11)[symmetric] by (subst s5) simp
  have 5: "level s' = 0" unfolding cf(1) by (subst s5) simp
  have 6: "trail s' = takeWhile (\<lambda>lit. v_level (var s lit) \<le> 0) (trail s) @ [- uip]"
    unfolding cf(2) f(2)[symmetric] f(12)[symmetric] by (subst s5) simp
  have 7: "var s' (- uip) =
           \<lparr>v_level = 0,
            v_trail = length (takeWhile (\<lambda>lit. v_level (var s lit) \<le> 0) (trail s)),
            v_reason = None\<rparr>"
    unfolding cf(13) f(2)[symmetric] f(12)[symmetric] by (subst s5) (simp add: var_def)
  have 8: "val s' (- uip) > 0" unfolding cf(14) by (subst s5) (simp add: val_def)
  have "status (ftab s5 (vidx (- uip))) = FIXED" by (subst s5) simp
  then have 9: "status (flags s' (- uip)) = FIXED" using cf(19) by (simp add: flags_def)
  have 10: "stats_fixed (stats s') = stats_fixed (stats s) + 1"
    unfolding cf(10) f(17)[symmetric] by (subst s5) simp
  have 11: "proof_log s' = map_option (trace_unit_clause (- uip)) (proof_log s)"
    unfolding cf(9) f(10)[symmetric] by (subst s5) simp
  have 12: "\<forall>idx. status (ftab s idx) = FIXED \<longrightarrow> status (ftab s' idx) = FIXED"
    using analyze_keeps_fixed[OF assms(4)] by blast
  show ?thesis using f(15) a 1 2 3 4 5 6 7 8 9 10 11 12 by simp
qed

theorem analyze_unit_witness:
  "level unit_scenario \<noteq> 0 \<and>
   analyze_prefix clause unit_scenario =
     Inr (fst (projr (analyze_prefix clause unit_scenario)), 1, 1, 1) \<and>
   analyze clause unit_scenario = Inr (projr (analyze clause unit_scenario)) \<and>
   num_clauses (projr (analyze clause unit_scenario)) = 3 \<and>
   iterating (projr (analyze clause unit_scenario)) \<and>
   jump_avg (projr (analyze clause unit_scenario)) = [0] \<and>
   level (projr (analyze clause unit_scenario)) = 0 \<and>
   trail (projr (analyze clause unit_scenario)) = [- 1] \<and>
   status (flags (projr (analyze clause unit_scenario)) (- 1)) = FIXED \<and>
   stats_fixed (stats (projr (analyze clause unit_scenario))) = 1 \<and>
   proof_log (projr (analyze clause unit_scenario)) = Some [TraceUnitClause (- 1)]"
proof -
  have l: "level unit_scenario \<noteq> 0" by (simp add: unit_scenario_def)
  have t: "takeWhile (\<lambda>lit. v_level (var unit_scenario lit) \<le> 0) (trail unit_scenario) = []"
    by (simp add: unit_scenario_def blank_def var_def vidx_def)
  have v: "jump_avg unit_scenario = []" "num_clauses unit_scenario = 3"
    "stats_fixed (stats unit_scenario) = 0" "proof_log unit_scenario = Some []"
    by (simp_all add: unit_scenario_def blank_def)
  show ?thesis
    using analyze_unit[OF l unit_scenario_prefix _ unit_scenario_analyze] l
      unit_scenario_prefix unit_scenario_analyze
    unfolding t v by (simp add: trace_unit_clause_def)
qed

text \<open>C5.  \<^verbatim>\<open>bump_variables\<close> leaves in the analyzed batch a permutation \<open>ys\<close> of it.  When
  the option \<^verbatim>\<open>trailbump\<close> is set, the propagations per decision exceed
  \<^verbatim>\<open>opts.trailbumprops\<close> and the percentage of bumps on the last level exceeds
  \<^verbatim>\<open>opts.trailbumplast\<close> (a ratio with the denominator 0 counts as 0), \<open>ys\<close> is in the
  trail-weighted order, ascending sum of the stamp before the bump and the trail position
  with ties broken by ascending trail position, and the counter of trail bumps has grown
  by one.  Otherwise \<open>ys\<close> is in ascending order of the stamps before the bump and the
  counter is unchanged.  The variables are then bumped one after the other in the order of
  \<open>ys\<close>: the result is the fold of \<^verbatim>\<open>bump_variable\<close> over \<open>ys\<close>, and when the queue is a
  well-formed list that holds the variables of the batch, each once in the batch, the
  queue afterwards is the variables outside the batch in their old order followed by the
  variables of \<open>ys\<close> in exactly this order, the last of them at the front.\<close>

theorem bump_variables_order:
  "let due =
     (opts_trailbump (opts s) \<and>
      opts_trailbumprops (opts s) <
        (if stats_decisions (stats s) = 0 then 0
         else of_int (stats_propagations (stats s)) / of_int (stats_decisions (stats s))) \<and>
      opts_trailbumplast (opts s) <
        (if stats_bumped (stats s) = 0 then 0
         else 100 * of_int (stats_bumplast (stats s)) / of_int (stats_bumped (stats s))))
   in \<exists>ys. mset ys = mset (analyzed s) \<and>
     (if due then sorted_wrt (trail_weighted_le s) ys
      else sorted (map (bumped s) ys)) \<and>
     analyzed (bump_variables s) = ys \<and>
     stats_trailbumped (stats (bump_variables s)) =
       stats_trailbumped (stats s) + (if due then 1 else 0) \<and>
     bump_variables s =
       fold bump_variable ys
         (s\<lparr>analyzed := ys, stats := (stats s)\<lparr>stats_trailbumped :=
            stats_trailbumped (stats s) + (if due then 1 else 0)\<rparr>\<rparr>) \<and>
     (\<forall>xs. queue_list (ltab s) (queue s) xs \<and> distinct (map vidx (analyzed s)) \<and>
           vidx ` set (analyzed s) \<subseteq> set xs \<longrightarrow>
        queue_list (ltab (bump_variables s)) (queue (bump_variables s))
          (filter (\<lambda>x. x \<notin> vidx ` set (analyzed s)) xs @ map vidx ys))"
  unfolding Let_def using bump_variables_sorted_queue[of s] unfolding use_trail_bump_eq .

theorem bump_variables_order_witness:
  "queue_list (ltab busy) (queue busy) [3, 2, 1] \<and>
   distinct (map vidx (analyzed busy)) \<and> vidx ` set (analyzed busy) \<subseteq> set [3, 2, 1] \<and>
   analyzed (bump_variables busy) = [- 1, - 2, - 3] \<and>
   sorted_wrt (trail_weighted_le busy) [- 1, - 2, - 3] \<and>
   \<not> sorted (map (bumped busy) [- 1, - 2, - 3]) \<and>
   queue_list (ltab (bump_variables busy)) (queue (bump_variables busy)) [1, 2, 3] \<and>
   stats_trailbumped (stats (bump_variables busy)) = 1 \<and>
   queue_list (ltab calm) (queue calm) [3, 2, 1] \<and>
   distinct (map vidx (analyzed calm)) \<and> vidx ` set (analyzed calm) \<subseteq> set [3, 2, 1] \<and>
   analyzed (bump_variables calm) = [- 3, - 2, - 1] \<and>
   sorted (map (bumped calm) [- 3, - 2, - 1]) \<and>
   \<not> sorted_wrt (trail_weighted_le calm) [- 3, - 2, - 1] \<and>
   queue_list (ltab (bump_variables calm)) (queue (bump_variables calm)) [3, 2, 1] \<and>
   stats_trailbumped (stats (bump_variables calm)) = 0"
proof -
  define due where "due s =
     (opts_trailbump (opts s) \<and>
      opts_trailbumprops (opts s) <
        (if stats_decisions (stats s) = 0 then 0
         else of_int (stats_propagations (stats s)) / of_int (stats_decisions (stats s))) \<and>
      opts_trailbumplast (opts s) <
        (if stats_bumped (stats s) = 0 then 0
         else 100 * of_int (stats_bumplast (stats s)) / of_int (stats_bumped (stats s))))"
    for s :: Internal
  have d: "due busy" "\<not> due calm" unfolding due_def by (simp_all add: busy_stats)
  have r: "\<exists>ys. analyzed (bump_variables s) = ys \<and>
     (if due s then sorted_wrt (trail_weighted_le s) ys else sorted (map (bumped s) ys)) \<and>
     stats_trailbumped (stats (bump_variables s)) =
       stats_trailbumped (stats s) + (if due s then 1 else 0) \<and>
     (\<forall>xs. queue_list (ltab s) (queue s) xs \<and> distinct (map vidx (analyzed s)) \<and>
           vidx ` set (analyzed s) \<subseteq> set xs \<longrightarrow>
        queue_list (ltab (bump_variables s)) (queue (bump_variables s))
          (filter (\<lambda>x. x \<notin> vidx ` set (analyzed s)) xs @ map vidx ys))" for s
    using bump_variables_order[of s] unfolding Let_def due_def by blast
  from r[of busy] obtain ys where y: "analyzed (bump_variables busy) = ys"
    and so: "if due busy then sorted_wrt (trail_weighted_le busy) ys
             else sorted (map (bumped busy) ys)"
    and tb: "stats_trailbumped (stats (bump_variables busy)) =
               stats_trailbumped (stats busy) + (if due busy then 1 else 0)"
    and q: "\<forall>xs. queue_list (ltab busy) (queue busy) xs \<and> distinct (map vidx (analyzed busy)) \<and>
           vidx ` set (analyzed busy) \<subseteq> set xs \<longrightarrow>
        queue_list (ltab (bump_variables busy)) (queue (bump_variables busy))
          (filter (\<lambda>x. x \<notin> vidx ` set (analyzed busy)) xs @ map vidx ys)"
    by blast
  have ys: "ys = [- 1, - 2, - 3]" using y busy_analyzed(1) by simp
  have "queue_list (ltab (bump_variables busy)) (queue (bump_variables busy))
          (filter (\<lambda>x. x \<notin> vidx ` set (analyzed busy)) [3, 2, 1] @ map vidx ys)"
    using q busy_queue(1) by blast
  then have 1: "queue_list (ltab (bump_variables busy)) (queue (bump_variables busy)) [1, 2, 3]"
    unfolding ys by (simp add: busy_stats vidx_def)
  have 2: "sorted_wrt (trail_weighted_le busy) [- 1, - 2, - 3]" using so d(1) ys by simp
  have 3: "stats_trailbumped (stats (bump_variables busy)) = 1"
    using tb d(1) by (simp add: busy_stats)
  from r[of calm] obtain zs where y': "analyzed (bump_variables calm) = zs"
    and so': "if due calm then sorted_wrt (trail_weighted_le calm) zs
             else sorted (map (bumped calm) zs)"
    and tb': "stats_trailbumped (stats (bump_variables calm)) =
               stats_trailbumped (stats calm) + (if due calm then 1 else 0)"
    and q': "\<forall>xs. queue_list (ltab calm) (queue calm) xs \<and> distinct (map vidx (analyzed calm)) \<and>
           vidx ` set (analyzed calm) \<subseteq> set xs \<longrightarrow>
        queue_list (ltab (bump_variables calm)) (queue (bump_variables calm))
          (filter (\<lambda>x. x \<notin> vidx ` set (analyzed calm)) xs @ map vidx zs)"
    by blast
  have zs: "zs = [- 3, - 2, - 1]" using y' busy_analyzed(2) by simp
  have "queue_list (ltab (bump_variables calm)) (queue (bump_variables calm))
          (filter (\<lambda>x. x \<notin> vidx ` set (analyzed calm)) [3, 2, 1] @ map vidx zs)"
    using q' busy_queue(2) by blast
  then have 4: "queue_list (ltab (bump_variables calm)) (queue (bump_variables calm)) [3, 2, 1]"
    unfolding zs by (simp add: busy_stats vidx_def)
  have 5: "sorted (map (bumped calm) [- 3, - 2, - 1])" using so' d(2) zs by simp
  have 6: "stats_trailbumped (stats (bump_variables calm)) = 0"
    using tb' d(2) by (simp add: busy_stats)
  have 7: "\<not> sorted (map (bumped busy) [- 1, - 2, - 3])"
    "\<not> sorted_wrt (trail_weighted_le calm) [- 3, - 2, - 1]"
    by (simp_all add: busy_defs bumped_def trail_weighted_le_def var_def vidx_def)
  show ?thesis using 1 2 3 4 5 6 7 busy_queue busy_analyzed by simp
qed
text \<open>C6.  In an analysis above level 0 that starts with a clean scratch state, once the walk
  has produced the first UIP clause and the clause has passed its check, the resolved batch
  is bumped: it is sorted by ascending previous timestamp, the clause at position \<open>i\<close> of
  the sorted batch receives the timestamp counter of the start plus \<open>i + 1\<close>, no other
  clause changes, and the batch is empty afterwards.  At that point no variable has been
  bumped: queue, links, stamps and bump counter are those of the start.  The rest of the
  analysis, with the variable bump, runs on that state and never stamps a clause again: a
  completed analysis leaves the batch empty and the timestamp counter advanced by the size
  of the batch.\<close>

theorem analyze_commits_resolved:
  assumes "level s \<noteq> 0" and "conflict s \<noteq> None" and "scratch_clean s"
    and "first_uip_clause s = Inr (s1, uip)" and "check_learned_clause s1 = Inr s1"
  shows "\<exists>s3. bump_resolved_clauses s1 = Inr s3 \<and> resolved s3 = [] \<and>
     mset (sort_by (analyzed_earlier s1) (resolved s1)) = mset (resolved s1) \<and>
     sorted (map (\<lambda>c. c_analyzed (clauses s1 c)) (sort_by (analyzed_earlier s1) (resolved s1))) \<and>
     (\<forall>i < length (resolved s1).
        sort_by (analyzed_earlier s1) (resolved s1) ! i
          \<notin> set (drop (Suc i) (sort_by (analyzed_earlier s1) (resolved s1))) \<longrightarrow>
        clauses s3 (sort_by (analyzed_earlier s1) (resolved s1) ! i) =
          (clauses s1 (sort_by (analyzed_earlier s1) (resolved s1) ! i))
            \<lparr>c_analyzed := stats_analyzed (stats s) + 1 + int i\<rparr>) \<and>
     (\<forall>c. c \<notin> set (resolved s1) \<longrightarrow> clauses s3 c = clauses s1 c) \<and>
     stats_analyzed (stats s3) = stats_analyzed (stats s) + int (length (resolved s1)) \<and>
     btab s3 = btab s \<and> ltab s3 = ltab s \<and> queue s3 = queue s \<and>
     stats_bumped (stats s3) = stats_bumped (stats s) \<and>
     analyze minimize_clause s =
       (case update_statistics minimize_clause s3 of
          (s4, g, sz) \<Rightarrow>
            (case backjump uip g sz (bump_variables s4) of
               Inl e \<Rightarrow> Inl e
             | Inr s5 \<Rightarrow> cleanup s5)) \<and>
     (\<forall>s'. analyze minimize_clause s = Inr s' \<longrightarrow>
        resolved s' = [] \<and>
        stats_analyzed (stats s') = stats_analyzed (stats s) + int (length (resolved s1)))"
proof -
  from first_uip_clause_walk[OF assms(3,4)] obtain sw where
    inv: "walk_inv s sw" and s1: "s1 = sw\<lparr>clause := clause sw @ [- uip]\<rparr>"
    by blast
  have fw: "scratch_frame s sw" using inv by (simp add: walk_inv_def)
  note f0 = scratch_frame_fields[OF fw]
  have st: "stats s1 = stats s" "btab s1 = btab s" "ltab s1 = ltab s" "queue s1 = queue s"
    using f0 by (simp_all add: s1)
  have ha: "\<forall>c \<in> set (resolved s1). have_analyzed (clauses s1 c)"
  proof
    fix c assume c: "c \<in> set (resolved s1)"
    then have "have_analyzed (clauses s c)" using inv unfolding walk_inv_def by (simp add: s1)
    moreover have "clauses sw c = clauses s c \<or> clauses sw c = (clauses s c)\<lparr>used := True\<rparr>"
      using inv unfolding walk_inv_def by blast
    ultimately show "have_analyzed (clauses s1 c)" by (auto simp: s1)
  qed
  from bump_resolved_clauses_result[OF ha] obtain cl where
    b: "bump_resolved_clauses s1 =
           Inr (s1\<lparr>resolved := [],
                  stats := (stats s1)\<lparr>stats_analyzed :=
                    stats_analyzed (stats s1) + int (length (resolved s1))\<rparr>,
                  clauses := cl\<rparr>)"
    and n: "\<forall>i < length (resolved s1).
              sort_by (analyzed_earlier s1) (resolved s1) ! i
                \<notin> set (drop (Suc i) (sort_by (analyzed_earlier s1) (resolved s1))) \<longrightarrow>
              cl (sort_by (analyzed_earlier s1) (resolved s1) ! i) =
                (clauses s1 (sort_by (analyzed_earlier s1) (resolved s1) ! i))
                  \<lparr>c_analyzed := stats_analyzed (stats s1) + 1 + int i\<rparr>"
    and o: "\<forall>c. c \<notin> set (resolved s1) \<longrightarrow> cl c = clauses s1 c"
    by blast
  define s3 where "s3 = s1\<lparr>resolved := [],
                  stats := (stats s1)\<lparr>stats_analyzed :=
                    stats_analyzed (stats s1) + int (length (resolved s1))\<rparr>,
                  clauses := cl\<rparr>"
  have b3: "bump_resolved_clauses s1 = Inr s3" using b by (simp add: s3_def)
  note f3 = bump_resolved_clauses_frame[OF b3]
  have c3: "clauses s3 = cl" by (simp add: s3_def)
  have an: "analyze minimize_clause s =
       (case update_statistics minimize_clause s3 of
          (s4, g, sz) \<Rightarrow>
            (case backjump uip g sz (bump_variables s4) of
               Inl e \<Rightarrow> Inl e
             | Inr s5 \<Rightarrow> cleanup s5))"
  proof -
    obtain y where y: "conflict s = Some y" using assms(2) by auto
    show ?thesis using assms(1)
      by (simp add: analyze_def analyze_prefix_def assms(4,5) b3 y split: prod.splits)
  qed
  have fin: "resolved s' = [] \<and>
        stats_analyzed (stats s') = stats_analyzed (stats s) + int (length (resolved s1))"
    if a: "analyze minimize_clause s = Inr s'" for s'
  proof -
    obtain s4 g sz where u: "update_statistics minimize_clause s3 = (s4, g, sz)"
      by (cases "update_statistics minimize_clause s3") auto
    obtain s5 where bj: "backjump uip g sz (bump_variables s4) = Inr s5" and cu: "cleanup s5 = Inr s'"
      using a unfolding an u by (cases "backjump uip g sz (bump_variables s4)") auto
    note f4 = update_statistics_frame[OF u]
    note f5 = bump_variables_frame[of s4]
    note bf = backjump_fields[OF bj]
    note cf = cleanup_fields[OF cu]
    have "resolved s' = []" using cf(12) bf(3) f5(4) f4(5) f3(2) by simp
    moreover have "stats_analyzed (stats s') = stats_analyzed (stats s) + int (length (resolved s1))"
      using cf(10) bf(4) f5(6) f4(13) f3(11) st(1) by simp
    ultimately show ?thesis by simp
  qed
  have "bump_resolved_clauses s1 = Inr s3 \<and> resolved s3 = [] \<and>
     mset (sort_by (analyzed_earlier s1) (resolved s1)) = mset (resolved s1) \<and>
     sorted (map (\<lambda>c. c_analyzed (clauses s1 c)) (sort_by (analyzed_earlier s1) (resolved s1))) \<and>
     (\<forall>i < length (resolved s1).
        sort_by (analyzed_earlier s1) (resolved s1) ! i
          \<notin> set (drop (Suc i) (sort_by (analyzed_earlier s1) (resolved s1))) \<longrightarrow>
        clauses s3 (sort_by (analyzed_earlier s1) (resolved s1) ! i) =
          (clauses s1 (sort_by (analyzed_earlier s1) (resolved s1) ! i))
            \<lparr>c_analyzed := stats_analyzed (stats s) + 1 + int i\<rparr>) \<and>
     (\<forall>c. c \<notin> set (resolved s1) \<longrightarrow> clauses s3 c = clauses s1 c) \<and>
     stats_analyzed (stats s3) = stats_analyzed (stats s) + int (length (resolved s1)) \<and>
     btab s3 = btab s \<and> ltab s3 = ltab s \<and> queue s3 = queue s \<and>
     stats_bumped (stats s3) = stats_bumped (stats s)"
    using b3 f3(2,5,6,7,8,11) n o sorted_analyzed_earlier[of s1 "resolved s1"]
    unfolding c3 st by simp
  then show ?thesis using an fin by blast
qed

theorem analyze_commits_resolved_witness:
  "level scenario \<noteq> 0 \<and> conflict scenario \<noteq> None \<and> scratch_clean scenario \<and>
   first_uip_clause scenario = Inr (fst (projr (first_uip_clause scenario)), 2) \<and>
   check_learned_clause (fst (projr (first_uip_clause scenario))) =
     Inr (fst (projr (first_uip_clause scenario))) \<and>
   resolved (fst (projr (first_uip_clause scenario))) = [2] \<and>
   stats_analyzed (stats scenario) = 5 \<and>
   resolved (projr (analyze clause scenario)) = [] \<and>
   stats_analyzed (stats (projr (analyze clause scenario))) = 6"
proof -
  have l: "level scenario \<noteq> 0" and c: "conflict scenario \<noteq> None"
    and a: "stats_analyzed (stats scenario) = 5"
    by (simp_all add: scenario_def blank_def)
  have r: "resolved (fst (projr (first_uip_clause scenario))) = [2]"
    by (simp add: eval_defs)
  show ?thesis
    using analyze_commits_resolved[OF l c scenario_clean scenario_first_uip scenario_check, of clause]
      scenario_analyze l c scenario_clean scenario_first_uip scenario_check
    unfolding r a by auto
qed

text \<open>C7, as amended.  \<^verbatim>\<open>bump_variable\<close> returns at once for the variable at the front of
  the queue (the one without a successor): nothing is stamped or counted for it.  For every
  other variable of the queue it unlinks the variable and relinks it at the front, stamps
  it with the incremented bump counter, counts it as bumped on the last level when its
  level is the current one, and moves the cursor of the queue to it when it is
  unassigned.\<close>

theorem bump_variable_effects:
  assumes "queue_list (ltab s) (queue s) xs" and "vidx lit \<in> set xs"
  shows "(vidx lit = last xs \<longrightarrow> bump_variable lit s = s) \<and>
         (vidx lit \<noteq> last xs \<longrightarrow>
            queue_list (ltab (bump_variable lit s)) (queue (bump_variable lit s))
              (remove1 (vidx lit) xs @ [vidx lit]) \<and>
            stats_bumped (stats (bump_variable lit s)) = stats_bumped (stats s) + 1 \<and>
            btab (bump_variable lit s) = (btab s)(vidx lit := stats_bumped (stats s) + 1) \<and>
            stats_bumplast (stats (bump_variable lit s)) =
              stats_bumplast (stats s) + (if v_level (var s lit) = level s then 1 else 0) \<and>
            q_unassigned (queue (bump_variable lit s)) =
              (if vals s (vidx lit) = 0 then vidx lit else q_unassigned (queue s)))"
  using bump_variable_moved[OF assms] .

theorem bump_variable_effects_witness:
  "queue_list (ltab scenario) (queue scenario) [1, 2, 3] \<and> vidx (- 1) \<in> set [1, 2, 3] \<and>
   vidx (- 1) \<noteq> last [1, 2, 3] \<and>
   queue_list (ltab (bump_variable (- 1) scenario)) (queue (bump_variable (- 1) scenario)) [2, 3, 1] \<and>
   stats_bumped (stats (bump_variable (- 1) scenario)) = 4 \<and>
   btab (bump_variable (- 1) scenario) 1 = 4 \<and>
   stats_bumplast (stats (bump_variable (- 1) scenario)) = 0"
proof -
  have q: "queue_list (ltab scenario) (queue scenario) [1, 2, 3]"
    by (simp add: scenario_def blank_def queue_list_def)
  have x: "vidx (- 1) \<in> set [1, 2, 3]" by (simp add: vidx_def)
  show ?thesis using q x bump_variable_effects[OF q x]
    by (simp add: vidx_def var_def scenario_def blank_def)
qed

text \<open>C7 as stated fails for the variable at the front of the queue: variable 3 of the
  scenario is on the current level, and bumping it changes neither its stamp nor a
  counter.\<close>

theorem bump_variable_front_counterexample:
  "queue_list (ltab scenario) (queue scenario) [1, 2, 3] \<and>
   v_level (var scenario 3) = level scenario \<and>
   stats_bumped (stats (bump_variable 3 scenario)) = stats_bumped (stats scenario) \<and>
   btab (bump_variable 3 scenario) (vidx 3) \<noteq> stats_bumped (stats scenario) + 1 \<and>
   stats_bumplast (stats (bump_variable 3 scenario)) = stats_bumplast (stats scenario)"
  by (simp add: scenario_def blank_def queue_list_def bump_variable_def vidx_def var_def)

text \<open>C8, as amended.  A reason clause joins the resolved batch exactly when it is redundant
  and has a timestamp slot.  Its used flag is set when it is redundant and took part in
  hyper-binary resolution, with or without a timestamp slot; an irredundant clause is left
  as it is, and so is every other clause.\<close>

theorem save_as_resolved_clause_effects:
  "resolved (save_as_resolved_clause c s) =
     (if redundant (clauses s c) \<and> have_analyzed (clauses s c) then resolved s @ [c]
      else resolved s) \<and>
   clauses (save_as_resolved_clause c s) =
     (if redundant (clauses s c) \<and> hbr (clauses s c)
      then (clauses s)(c := (clauses s c)\<lparr>used := True\<rparr>) else clauses s)"
  by (simp add: save_as_resolved_clause_def Let_def)

theorem save_as_resolved_clause_effects_witness:
  "resolved (save_as_resolved_clause 2 scenario) = [2] \<and>
   clauses (save_as_resolved_clause 2 scenario) = clauses scenario"
  using save_as_resolved_clause_effects[of 2 scenario]
  by (simp add: scenario_def blank_def)

text \<open>C8 as stated fails for an irredundant clause that took part in hyper-binary
  resolution: its used flag is not set.\<close>

theorem save_as_resolved_clause_counterexample:
  "hbr (clauses (blank\<lparr>clauses := (clauses blank)(1 := (clauses blank 1)\<lparr>hbr := True\<rparr>)\<rparr>) 1) \<and>
   \<not> used (clauses (save_as_resolved_clause 1
     (blank\<lparr>clauses := (clauses blank)(1 := (clauses blank 1)\<lparr>hbr := True\<rparr>)\<rparr>)) 1)"
  by (simp add: save_as_resolved_clause_def blank_def)

text \<open>C9, as amended.  A completed analysis at a decision level above 0 that started with a
  clean scratch state ends with one: no seen flag is set, the analyzed batch, the list of
  levels, the clause buffer and the resolved batch are empty, no level record counts an
  analyzed literal, every level record of the list of levels is reset and every other one
  is reset or as before, and the conflict is cleared.  When the cleanup started, every
  literal of the analyzed batch had its seen flag set and none of keep, poison and
  removable.\<close>

theorem analyze_cleans_up:
  assumes "level s \<noteq> 0" and "scratch_clean s" and "analyze minimize_clause s = Inr s'"
  shows "scratch_clean s' \<and> conflict s' = None \<and>
         (\<forall>l. control s' l = level_reset \<or> control s' l = control s l) \<and>
         (\<exists>s4 uip g sz s5.
            analyze_prefix minimize_clause s = Inr (s4, uip, g, sz) \<and>
            backjump uip g sz s4 = Inr s5 \<and> cleanup s5 = Inr s' \<and>
            (\<forall>l \<in> set (levels s5). control s' l = level_reset) \<and>
            (\<forall>lit \<in> set (analyzed s5). seen (flags s5 lit) \<and> \<not> keep (flags s5 lit) \<and>
               \<not> poison (flags s5 lit) \<and> \<not> removable (flags s5 lit)))"
proof -
  from analyze_Inr_chain[OF assms(1,3)] obtain s4 uip g sz s5 where
    p: "analyze_prefix minimize_clause s = Inr (s4, uip, g, sz)"
    and b: "backjump uip g sz s4 = Inr s5" and c: "cleanup s5 = Inr s'"
    by blast
  note pf = analyze_prefix_facts[OF assms(2) p]
  note fr = analyze_prefix_frame[OF p]
  note bf = backjump_fields[OF b]
  note cf = cleanup_fields[OF c]
  from cleanup_result[OF c] have
    ft: "\<forall>idx. ftab s' idx = (if idx \<in> vidx ` set (analyzed s5) then (ftab s5 idx)\<lparr>seen := False\<rparr>
                              else ftab s5 idx)"
    and co: "control s' = (\<lambda>l. if l \<in> set (levels s5) then level_reset else control s5 l)"
    and fl: "\<forall>lit \<in> set (analyzed s5). seen (flags s5 lit) \<and> \<not> keep (flags s5 lit) \<and>
            \<not> poison (flags s5 lit) \<and> \<not> removable (flags s5 lit)"
    by blast+
  have seen5: "seen (ftab s5 idx) = (idx \<in> vidx ` set (analyzed s5))" for idx
  proof -
    obtain st where "ftab s5 idx = (ftab s4 idx)\<lparr>status := st\<rparr>" using bf(5) by blast
    then have "seen (ftab s5 idx) = seen (ftab s4 idx)" by simp
    also have "\<dots> = (idx \<in> vidx ` set (analyzed s4))" using pf(1) by simp
    finally show ?thesis using bf(1) by simp
  qed
  have 1: "\<forall>idx. \<not> seen (ftab s' idx)" using ft seen5 by simp
  have c0: "\<forall>l. l_seen (control s l) = 0" using assms(2) by (simp add: scratch_clean_def)
  have 2: "control s' l = level_reset \<or> control s' l = control s l" for l
  proof (cases "l \<in> set (levels s5)")
    case True
    then show ?thesis using co by simp
  next
    case False
    then have "control s' l = control s5 l" using co by simp
    moreover have "control s5 l = control s4 l \<or> control s5 l = level_reset" using bf(6) by blast
    moreover have "control s4 l = control s l" using pf(3) False bf(2) by simp
    ultimately show ?thesis by auto
  qed
  have 3: "\<forall>l. l_seen (control s' l) = 0"
  proof
    fix l
    from 2[of l] c0 show "l_seen (control s' l) = 0" by (auto simp: level_reset_def)
  qed
  have 4: "resolved s' = []" using cf(12) bf(3) fr(16) by simp
  have 5: "scratch_clean s'" unfolding scratch_clean_def using 1 3 4 cf(15,16,17) by simp
  have 6: "\<forall>l \<in> set (levels s5). control s' l = level_reset" using co by simp
  show ?thesis using 5 cf(18) 2 p b c 6 fl by blast
qed

theorem analyze_cleans_up_witness:
  "level scenario \<noteq> 0 \<and> scratch_clean scenario \<and>
   analyze clause scenario = Inr (projr (analyze clause scenario)) \<and>
   scratch_clean (projr (analyze clause scenario)) \<and>
   conflict (projr (analyze clause scenario)) = None"
proof -
  have l: "level scenario \<noteq> 0" by (simp add: scenario_def)
  show ?thesis
    using analyze_cleans_up[OF l scenario_clean scenario_analyze] l scenario_clean
      scenario_analyze
    by simp
qed

text \<open>C9 as stated fails at decision level 0: the analysis completes there with the unsat
  flag set and the conflict still in place.\<close>

theorem analyze_level_zero_keeps_conflict:
  "scratch_clean (blank\<lparr>conflict := Some 1\<rparr>) \<and>
   analyze clause (blank\<lparr>conflict := Some 1\<rparr>) = Inr (blank\<lparr>conflict := Some 1, unsat := True\<rparr>) \<and>
   conflict (blank\<lparr>conflict := Some 1, unsat := True\<rparr>) \<noteq> None"
  by (simp add: scratch_clean_def analyze_def learn_empty_clause_def blank_def unset_flags_def)

text \<open>C10.  In a queue whose front variable carries the latest stamp (the invariant every
  bump establishes, see \<open>bump_variable_front_stamp\<close>), bumping a variable twice in
  succession leaves a duplicate-free queue with the variable at the front, the other
  variables in their order, and the stamp of the variable equal to the bump counter.\<close>

theorem bump_variable_twice_front:
  assumes "queue_list (ltab s) (queue s) xs" and "vidx lit \<in> set xs"
    and "btab s (last xs) = stats_bumped (stats s)"
  shows "queue_list (ltab (bump_variable lit (bump_variable lit s)))
           (queue (bump_variable lit (bump_variable lit s))) (remove1 (vidx lit) xs @ [vidx lit]) \<and>
         distinct (remove1 (vidx lit) xs @ [vidx lit]) \<and>
         q_last (queue (bump_variable lit (bump_variable lit s))) = vidx lit \<and>
         btab (bump_variable lit (bump_variable lit s)) (vidx lit) =
           stats_bumped (stats (bump_variable lit (bump_variable lit s)))"
proof -
  let ?t = "bump_variable lit (bump_variable lit s)"
  let ?ys = "remove1 (vidx lit) xs @ [vidx lit]"
  have q: "queue_list (ltab ?t) (queue ?t) ?ys"
    and b: "btab ?t (vidx lit) = stats_bumped (stats ?t)"
    using bump_variable_twice[OF assms] by simp_all
  from q have "distinct ?ys" and "q_last (queue ?t) = vidx lit"
    by (simp_all add: queue_list_def)
  with q b show ?thesis by simp
qed

theorem bump_variable_twice_front_witness:
  "queue_list (ltab scenario) (queue scenario) [1, 2, 3] \<and> vidx 2 \<in> set [1, 2, 3] \<and>
   btab scenario (last [1, 2, 3]) = stats_bumped (stats scenario) \<and>
   queue_list (ltab (bump_variable 2 (bump_variable 2 scenario)))
     (queue (bump_variable 2 (bump_variable 2 scenario))) [1, 3, 2] \<and>
   q_last (queue (bump_variable 2 (bump_variable 2 scenario))) = 2 \<and>
   btab (bump_variable 2 (bump_variable 2 scenario)) 2 =
     stats_bumped (stats (bump_variable 2 (bump_variable 2 scenario)))"
proof -
  have q: "queue_list (ltab scenario) (queue scenario) [1, 2, 3]"
    by (simp add: scenario_def blank_def queue_list_def)
  have x: "vidx 2 \<in> set [1, 2, 3]" by (simp add: vidx_def)
  have b: "btab scenario (last [1, 2, 3]) = stats_bumped (stats scenario)"
    by (simp add: scenario_def blank_def)
  show ?thesis using q x b bump_variable_twice_front[OF q x b]
    by (simp add: vidx_def)
qed

end
